theory Spec2Isabelle
  imports Main
begin

section \<open>Characters and strings\<close>

text \<open>
  A Python \<open>str\<close> is modelled as a \<open>string\<close>: one \<open>char\<close> stands for one code point
  below 256. The character classes below are those of CPython's \<open>re\<close> module for
  \<open>str\<close> patterns, restricted to that range.
\<close>

abbreviation bs :: char where "bs \<equiv> CHR 0x5C"
abbreviation nl :: char where "nl \<equiv> CHR 0x0A"
abbreviation squote :: char where "squote \<equiv> CHR 0x27"
abbreviation dquote :: char where "dquote \<equiv> CHR 0x22"

text \<open>\<open>\d\<close>: the decimal digits.\<close>

definition is_digit :: "char \<Rightarrow> bool" where
  "is_digit c = (c \<in> set ''0123456789'')"

text \<open>\<open>\s\<close>: the characters for which \<open>str.isspace\<close> holds.\<close>

definition is_space :: "char \<Rightarrow> bool" where
  "is_space c = (c \<in> set [CHR 0x09, CHR 0x0A, CHR 0x0B, CHR 0x0C, CHR 0x0D,
      CHR 0x1C, CHR 0x1D, CHR 0x1E, CHR 0x1F, CHR 0x20, CHR 0x85, CHR 0xA0])"

definition is_alpha :: "char \<Rightarrow> bool" where
  "is_alpha c = (c \<in> set ''abcdefghijklmnopqrstuvwxyzABCDEFGHIJKLMNOPQRSTUVWXYZ'')"

text \<open>The characters \<open>re.escape\<close> puts a backslash before (Python 3.7 and later).\<close>

definition is_special :: "char \<Rightarrow> bool" where
  "is_special c = (c \<in> set (''()[]{}?*+-|^$'' @ [bs] @ ''.&~# '' @
      [CHR 0x09, CHR 0x0A, CHR 0x0D, CHR 0x0B, CHR 0x0C]))"

primrec escape :: "string \<Rightarrow> string" where
  "escape [] = []"
| "escape (c # cs) = (if is_special c then bs # c # escape cs else c # escape cs)"

fun strip_prefix :: "string \<Rightarrow> string \<Rightarrow> string option" where
  "strip_prefix [] s = Some s"
| "strip_prefix (p # ps) [] = None"
| "strip_prefix (p # ps) (c # cs) = (if p = c then strip_prefix ps cs else None)"

text \<open>\<open>int(digits)\<close> for a string of decimal digits; Python's integers are unbounded.\<close>

definition digit_val :: "char \<Rightarrow> int" where
  "digit_val c = of_char c - 48"

definition int_of_digits :: "string \<Rightarrow> int" where
  "int_of_digits ds = foldl (\<lambda>n c. 10 * n + digit_val c) 0 ds"

text \<open>\<open>str(n)\<close> for an integer: the decimal digits, with a minus sign when negative.\<close>

definition digit_char :: "nat \<Rightarrow> char" where
  "digit_char n = char_of (48 + n)"

fun str_nat :: "nat \<Rightarrow> string" where
  "str_nat n = (if n < 10 then [digit_char n] else str_nat (n div 10) @ [digit_char (n mod 10)])"

declare str_nat.simps [simp del]

definition str_int :: "int \<Rightarrow> string" where
  "str_int i = (if i < 0 then CHR ''-'' # str_nat (nat (- i)) else str_nat (nat i))"

text \<open>
  \<open>repr\<close> of a \<open>str\<close>: single quotes unless the text has a single and no double quote;
  the quote and the backslash are escaped, as are tab, newline, carriage return and the
  code points that are not printable.
\<close>

definition is_printable :: "char \<Rightarrow> bool" where
  "is_printable c = (let n = (of_char c :: nat) in (32 \<le> n \<and> n < 127) \<or> (161 \<le> n \<and> n \<noteq> 173))"

definition hex_digit :: "nat \<Rightarrow> char" where
  "hex_digit n = ''0123456789abcdef'' ! n"

definition repr_char :: "char \<Rightarrow> char \<Rightarrow> string" where
  "repr_char q c =
     (if c = q \<or> c = bs then [bs, c]
      else if c = CHR 0x09 then [bs, CHR ''t'']
      else if c = nl then [bs, CHR ''n'']
      else if c = CHR 0x0D then [bs, CHR ''r'']
      else if is_printable c then [c]
      else [bs, CHR ''x'', hex_digit (of_char c div 16), hex_digit (of_char c mod 16)])"

definition py_repr :: "string \<Rightarrow> string" where
  "py_repr s =
     (let q = (if squote \<in> set s \<and> dquote \<notin> set s then dquote else squote)
      in q # concat (map (repr_char q) s) @ [q])"

section \<open>Errors\<close>

text \<open>
  The exceptions the program can raise. \<open>Unsupported\<close> is not a Python exception: it marks
  pattern text outside the fragment of the \<open>re\<close> syntax that \<open>re_compile\<close> below covers.
\<close>

datatype error =
    ValueError string
  | OverflowError string
  | IndexError string
  | ReError string
  | Unsupported

section \<open>Token capture sequences\<close>

definition TOKEN_GROUP_PREFIX :: string where
  "TOKEN_GROUP_PREFIX = ''token_''"

text \<open>
  One match of \<open>_TOKEN_CAPTURE_RE = %\\{(?P<index>\d+)(?P<modifier>G|S(\d+))?\\}\<close>:
  the matched text (group 0), the groups \<open>index\<close> and \<open>modifier\<close>, and the subject string.
\<close>

record token_match =
  tm_group0 :: string
  tm_index :: string
  tm_modifier :: "string option"
  tm_string :: string

text \<open>
  The optional group \<open>(?P<modifier>G|S(\d+))?\<close> at the head of a string: the modifier and
  what follows it.
\<close>

definition modifier_at :: "string \<Rightarrow> string option \<times> string" where
  "modifier_at s =
     (case s of
        [] \<Rightarrow> (None, [])
      | c # r \<Rightarrow>
          if c = CHR ''G'' then (Some ''G'', r)
          else if c = CHR ''S'' \<and> takeWhile is_digit r \<noteq> []
            then (Some (CHR ''S'' # takeWhile is_digit r), dropWhile is_digit r)
          else (None, s))"

text \<open>
  An attempt to match \<open>_TOKEN_CAPTURE_RE\<close> at the head of a string: the index, the
  modifier, the matched text and the rest. Both \<open>\d+\<close> take every digit there is, and
  giving one back never helps: the next thing the pattern wants is not a digit.
\<close>

definition token_capture_at :: "string \<Rightarrow> (string \<times> string option \<times> string \<times> string) option" where
  "token_capture_at s =
     (case strip_prefix [CHR ''%'', bs, CHR ''{''] s of
        None \<Rightarrow> None
      | Some r \<Rightarrow>
          if takeWhile is_digit r = [] then None
          else (case modifier_at (dropWhile is_digit r) of
                  (md, r2) \<Rightarrow>
                    (case strip_prefix [bs, CHR ''}''] r2 of
                       None \<Rightarrow> None
                     | Some r3 \<Rightarrow>
                         Some (takeWhile is_digit r, md, take (length s - length r3) s, r3))))"

text \<open>\<open>_unescape\<close>: \<open>re.sub(r"\\(.)", r"\1", string)\<close>; the dot does not match a newline.\<close>

fun unescape :: "string \<Rightarrow> string" where
  "unescape (c # d # r) = (if c = bs \<and> d \<noteq> nl then d # unescape r else c # unescape (d # r))"
| "unescape s = s"

definition raise_on_duplicate_token_index :: "token_match \<Rightarrow> error" where
  "raise_on_duplicate_token_index tm =
     ValueError (''Duplicate token index '' @ unescape (tm_group0 tm) @ '' in '' @
                 py_repr (unescape (tm_string tm)))"

definition group_text :: "string \<Rightarrow> string \<Rightarrow> string" where
  "group_text index body = ''(?P<'' @ TOKEN_GROUP_PREFIX @ index @ ''>'' @ body @ '')''"

definition spaces_body :: "string \<Rightarrow> string" where
  "spaces_body total_spaces =
     ''(?:'' @ [bs] @ ''S*'' @ [bs] @ ''s'' @ [bs] @ ''S*){'' @ total_spaces @ ''}'' @ [bs] @ ''S*''"

text \<open>
  \<open>_map_token_to_re\<close>. The set of seen indices is mutated in the source; here the new
  set is returned with the replacement text.
\<close>

definition map_token_to_re :: "token_match \<Rightarrow> string set \<Rightarrow> error + (string \<times> string set)" where
  "map_token_to_re tm indices =
     (if tm_index tm \<in> indices then Inl (raise_on_duplicate_token_index tm)
      else
        (let indices' = insert (tm_index tm) indices in
         case tm_modifier tm of
           None \<Rightarrow> Inr (group_text (tm_index tm) ''.*?'', indices')
         | Some md \<Rightarrow>
             if md = ''G'' then Inr (group_text (tm_index tm) ''.*'', indices')
             else Inr (group_text (tm_index tm) (spaces_body (tl md)), indices')))"

lemma strip_prefix_length: "strip_prefix p s = Some r \<Longrightarrow> length r \<le> length s"
  by (induction p s rule: strip_prefix.induct) (auto split: if_splits)

lemma strip_prefix_shorter: "strip_prefix (c # p) s = Some r \<Longrightarrow> length r < length s"
  by (cases s) (auto split: if_splits dest: strip_prefix_length)

lemma modifier_at_length: "modifier_at s = (md, r) \<Longrightarrow> length r \<le> length s"
  unfolding modifier_at_def
  by (auto split: list.splits if_splits intro: le_trans [OF length_dropWhile_le])

lemma token_capture_at_shorter:
  "token_capture_at s = Some (i, md, t, r) \<Longrightarrow> length r < length s"
  unfolding token_capture_at_def
  by (fastforce split: option.splits if_splits prod.splits
        dest!: strip_prefix_shorter modifier_at_length
        dest: le_trans [OF _ length_dropWhile_le])

text \<open>
  \<open>re.sub(_TOKEN_CAPTURE_RE, token_mapper, pattern)\<close>: the leftmost matches, left to right,
  each replaced by what the mapper returns; an exception of the mapper ends the scan.
\<close>

function sub_tokens :: "string \<Rightarrow> string set \<Rightarrow> string \<Rightarrow> error + string" where
  "sub_tokens whole indices [] = Inr []"
| "sub_tokens whole indices (c # cs) =
     (case token_capture_at (c # cs) of
        None \<Rightarrow>
          (case sub_tokens whole indices cs of
             Inl e \<Rightarrow> Inl e
           | Inr out \<Rightarrow> Inr (c # out))
      | Some (index, md, text, rest) \<Rightarrow>
          (case map_token_to_re
                  \<lparr>tm_group0 = text, tm_index = index, tm_modifier = md, tm_string = whole\<rparr>
                  indices of
             Inl e \<Rightarrow> Inl e
           | Inr (repl, indices') \<Rightarrow>
               (case sub_tokens whole indices' rest of
                  Inl e \<Rightarrow> Inl e
                | Inr out \<Rightarrow> Inr (repl @ out))))"
  by pat_completeness auto
termination
  by (relation "measure (\<lambda>(w, i, s). length s)") (auto dest: token_capture_at_shorter)

text \<open>
  \<open>_TOKEN_CAPTURE_RE\<close>'s matches never overlap and never are empty, so the scan goes on
  after the matched text.
\<close>

section \<open>The pattern language of \<open>re\<close>\<close>

text \<open>
  The syntax trees of the patterns this program compiles. A starred item is always a
  single-character set (\<open>.*\<close>, \<open>.*?\<close>, \<open>\S*\<close>); \<open>Rep n r\<close> is \<open>(?:r){n}\<close>;
  \<open>Grp name r\<close> is \<open>(?P<name>r)\<close>; \<open>Bol\<close> and \<open>Eol\<close> are \<open>^\<close> and \<open>$\<close>.
\<close>

datatype cset = Ch char | AnyChar | Space | NotSpace

datatype regex =
    Atom cset
  | StarG cset
  | StarL cset
  | Rep nat regex
  | Seq regex regex
  | Grp string regex
  | Bol
  | Eol

text \<open>Without \<open>re.DOTALL\<close> the dot matches anything but a newline.\<close>

fun in_cset :: "cset \<Rightarrow> char \<Rightarrow> bool" where
  "in_cset (Ch d) c = (c = d)"
| "in_cset AnyChar c = (c \<noteq> nl)"
| "in_cset Space c = is_space c"
| "in_cset NotSpace c = (\<not> is_space c)"

record re_pattern =
  p_text :: string
  p_items :: "regex list"

definition MAXREPEAT :: int where
  "MAXREPEAT = 4294967295"

text \<open>
  The checks of the pattern parser on a repetition count \<open>{digits}\<close>. \<open>int(digits)\<close> comes
  first: since the releases that limit integer string conversion (3.8.14 and later) it is a
  ValueError for more than 4300 digits; the message is that of recent releases. A count of
  \<open>MAXREPEAT\<close> or more is an OverflowError.
\<close>

definition MAX_STR_DIGITS :: int where
  "MAX_STR_DIGITS = 4300"

definition repeat_count_error :: "string \<Rightarrow> error option" where
  "repeat_count_error ds =
     (if int (length ds) > MAX_STR_DIGITS
      then Some (ValueError (''Exceeds the limit (4300 digits) for integer string conversion: '' @
                  ''value has '' @ str_nat (length ds) @
                  '' digits; use sys.set_int_max_str_digits() to increase the limit''))
      else if int_of_digits ds \<ge> MAXREPEAT
      then Some (OverflowError ''the repetition number is too large'')
      else None)"

definition is_identifier :: "string \<Rightarrow> bool" where
  "is_identifier name =
     (case name of
        [] \<Rightarrow> False
      | c # cs \<Rightarrow> (is_alpha c \<or> c = CHR ''_'') \<and>
                 (\<forall>d \<in> set cs. is_alpha d \<or> is_digit d \<or> d = CHR ''_''))"

definition spaces_open :: string where
  "spaces_open = ''(?:'' @ [bs] @ ''S*'' @ [bs] @ ''s'' @ [bs] @ ''S*){''"

definition spaces_close :: string where
  "spaces_close = ''}'' @ [bs] @ ''S*)''"

definition spaces_regex :: "nat \<Rightarrow> regex" where
  "spaces_regex n =
     Seq (Rep n (Seq (StarG NotSpace) (Seq (Atom Space) (StarG NotSpace)))) (StarG NotSpace)"

text \<open>
  The body of a named group up to and including its closing parenthesis: one of the three
  bodies \<open>_map_token_to_re\<close> writes.
\<close>

definition parse_body :: "string \<Rightarrow> error + (regex \<times> string)" where
  "parse_body s =
     (case strip_prefix ''.*?)'' s of
        Some r \<Rightarrow> Inr (StarL AnyChar, r)
      | None \<Rightarrow>
     (case strip_prefix ''.*)'' s of
        Some r \<Rightarrow> Inr (StarG AnyChar, r)
      | None \<Rightarrow>
     (case strip_prefix spaces_open s of
        None \<Rightarrow> Inl Unsupported
      | Some r \<Rightarrow>
          (case strip_prefix spaces_close (dropWhile is_digit r) of
             None \<Rightarrow> Inl Unsupported
           | Some r2 \<Rightarrow>
               if takeWhile is_digit r = [] then Inl Unsupported
               else (case repeat_count_error (takeWhile is_digit r) of
                       Some e \<Rightarrow> Inl e
                     | None \<Rightarrow>
                         Inr (spaces_regex (nat (int_of_digits (takeWhile is_digit r))), r2))))))"

text \<open>What follows an opening parenthesis: \<open>?P<name>\<close>, the body, the closing parenthesis.\<close>

definition parse_group :: "string \<Rightarrow> error + (regex \<times> string)" where
  "parse_group s =
     (case strip_prefix ''?P<'' s of
        None \<Rightarrow> Inl Unsupported
      | Some r \<Rightarrow>
          (case strip_prefix ''>'' (dropWhile (\<lambda>c. c \<noteq> CHR ''>'') r) of
             None \<Rightarrow> Inl Unsupported
           | Some r2 \<Rightarrow>
               if \<not> is_identifier (takeWhile (\<lambda>c. c \<noteq> CHR ''>'') r) then Inl Unsupported
               else (case parse_body r2 of
                       Inl e \<Rightarrow> Inl e
                     | Inr (body, r3) \<Rightarrow>
                         Inr (Grp (takeWhile (\<lambda>c. c \<noteq> CHR ''>'') r) body, r3))))"

lemma parse_body_length: "parse_body s = Inr (b, r) \<Longrightarrow> length r \<le> length s"
  unfolding parse_body_def
  by (auto split: option.splits if_splits dest!: strip_prefix_length
        dest: le_trans [OF _ length_dropWhile_le])

lemma parse_group_length: "parse_group s = Inr (g, r) \<Longrightarrow> length r \<le> length s"
  unfolding parse_group_def
  by (fastforce split: option.splits if_splits sum.splits prod.splits
        dest!: strip_prefix_length parse_body_length
        dest: le_trans [OF _ length_dropWhile_le])

text \<open>
  The items of a pattern, left to right. A backslash before a character that is neither a
  letter nor a digit is that character; an unescaped character with no meaning in the
  syntax is itself.
\<close>

function parse_items :: "string \<Rightarrow> error + regex list" where
  "parse_items [] = Inr []"
| "parse_items (c # r) =
     (if c = bs then
        (case r of
           [] \<Rightarrow> Inl (ReError ''bad escape (end of pattern)'')
         | d # r' \<Rightarrow>
             if is_alpha d \<or> is_digit d then Inl Unsupported
             else (case parse_items r' of
                     Inl e \<Rightarrow> Inl e
                   | Inr items \<Rightarrow> Inr (Atom (Ch d) # items)))
      else if c = CHR ''('' then
        (case parse_group r of
           Inl e \<Rightarrow> Inl e
         | Inr (g, r') \<Rightarrow>
             (case parse_items r' of
                Inl e \<Rightarrow> Inl e
              | Inr items \<Rightarrow> Inr (g # items)))
      else if c \<in> set ''.*+?{}[]|)'' then Inl Unsupported
      else
        (case parse_items r of
           Inl e \<Rightarrow> Inl e
         | Inr items \<Rightarrow>
             Inr ((if c = CHR ''^'' then Bol else if c = CHR ''$'' then Eol else Atom (Ch c))
                  # items)))"
  by pat_completeness auto
termination
  by (relation "measure length") (auto dest: parse_group_length)

primrec group_names :: "regex \<Rightarrow> string list" where
  "group_names (Atom cs) = []"
| "group_names (StarG cs) = []"
| "group_names (StarL cs) = []"
| "group_names (Rep n r) = group_names r"
| "group_names (Seq a b) = group_names a @ group_names b"
| "group_names (Grp name r) = name # group_names r"
| "group_names Bol = []"
| "group_names Eol = []"

text \<open>
  \<open>re.compile(text, flags=re.UNICODE)\<close>. A group name used twice is an error of the
  pattern.
\<close>

definition re_compile :: "string \<Rightarrow> error + re_pattern" where
  "re_compile text =
     (case parse_items text of
        Inl e \<Rightarrow> Inl e
      | Inr items \<Rightarrow>
          if distinct (concat (map group_names items))
          then Inr \<lparr>p_text = text, p_items = items\<rparr>
          else Inl (ReError ''redefinition of group name''))"

section \<open>Matching\<close>

text \<open>
  The backtracking matcher of \<open>re\<close>, in continuation style: the subject still to be read,
  the groups set so far, and what to do after the item. The first alternative that leads
  to an overall match wins. \<open>n\<close> is the length of the whole subject, so that
  \<open>n - length rest\<close> is the current position.
\<close>

type_synonym groups = "(string \<times> nat \<times> nat) list"

fun star_greedy :: "cset \<Rightarrow> string \<Rightarrow> (string \<Rightarrow> 'a option) \<Rightarrow> 'a option" where
  "star_greedy cs [] k = k []"
| "star_greedy cs (c # r) k =
     (if in_cset cs c
      then (case star_greedy cs r k of Some x \<Rightarrow> Some x | None \<Rightarrow> k (c # r))
      else k (c # r))"

fun star_lazy :: "cset \<Rightarrow> string \<Rightarrow> (string \<Rightarrow> 'a option) \<Rightarrow> 'a option" where
  "star_lazy cs [] k = k []"
| "star_lazy cs (c # r) k =
     (case k (c # r) of
        Some x \<Rightarrow> Some x
      | None \<Rightarrow> if in_cset cs c then star_lazy cs r k else None)"

primrec rep ::
  "nat \<Rightarrow> (string \<Rightarrow> groups \<Rightarrow> (string \<Rightarrow> groups \<Rightarrow> 'a option) \<Rightarrow> 'a option) \<Rightarrow>
   string \<Rightarrow> groups \<Rightarrow> (string \<Rightarrow> groups \<Rightarrow> 'a option) \<Rightarrow> 'a option" where
  "rep 0 f rest g k = k rest g"
| "rep (Suc n) f rest g k = f rest g (\<lambda>rest' g'. rep n f rest' g' k)"

primrec sre_match ::
  "nat \<Rightarrow> regex \<Rightarrow> string \<Rightarrow> groups \<Rightarrow> (string \<Rightarrow> groups \<Rightarrow> 'a option) \<Rightarrow> 'a option" where
  "sre_match n (Atom cs) =
     (\<lambda>rest g k. case rest of [] \<Rightarrow> None | c # r \<Rightarrow> if in_cset cs c then k r g else None)"
| "sre_match n (StarG cs) = (\<lambda>rest g k. star_greedy cs rest (\<lambda>r. k r g))"
| "sre_match n (StarL cs) = (\<lambda>rest g k. star_lazy cs rest (\<lambda>r. k r g))"
| "sre_match n (Rep c r) = (\<lambda>rest g k. rep c (sre_match n r) rest g k)"
| "sre_match n (Seq a b) =
     (\<lambda>rest g k. sre_match n a rest g (\<lambda>rest' g'. sre_match n b rest' g' k))"
| "sre_match n (Grp name r) =
     (\<lambda>rest g k. sre_match n r rest g
        (\<lambda>rest' g'. k rest' ((name, n - length rest, n - length rest') # g')))"
| "sre_match n Bol = (\<lambda>rest g k. if length rest = n then k rest g else None)"
| "sre_match n Eol = (\<lambda>rest g k. if rest = [] \<or> rest = [nl] then k rest g else None)"

primrec match_items ::
  "nat \<Rightarrow> regex list \<Rightarrow> string \<Rightarrow> groups \<Rightarrow> (string \<Rightarrow> groups \<Rightarrow> 'a option) \<Rightarrow> 'a option" where
  "match_items n [] = (\<lambda>rest g k. k rest g)"
| "match_items n (r # rs) =
     (\<lambda>rest g k. sre_match n r rest g (\<lambda>rest' g'. match_items n rs rest' g' k))"

text \<open>
  A match object of \<open>re\<close>: the subject, the pattern, where the match ends (it starts at 0)
  and the spans of the groups.
\<close>

record re_match =
  m_string :: string
  m_re :: re_pattern
  m_end :: nat
  m_groups :: groups

text \<open>\<open>Pattern.match(line)\<close>: a match that starts at the start of the subject.\<close>

definition pattern_match :: "re_pattern \<Rightarrow> string \<Rightarrow> re_match option" where
  "pattern_match p line =
     match_items (length line) (p_items p) line []
       (\<lambda>rest g. Some \<lparr>m_string = line, m_re = p,
                       m_end = length line - length rest, m_groups = g\<rparr>)"

text \<open>
  \<open>Match.group(name)\<close>: IndexError when the pattern has no group of that name, the text
  of the group otherwise (\<open>None\<close> for a group that took no part in the match).
\<close>

definition re_group :: "re_match \<Rightarrow> string \<Rightarrow> error + string option" where
  "re_group m name =
     (if name \<notin> set (concat (map group_names (p_items (m_re m))))
      then Inl (IndexError ''no such group'')
      else (case map_of (m_groups m) name of
              None \<Rightarrow> Inr None
            | Some (b, e) \<Rightarrow> Inr (Some (take (e - b) (drop b (m_string m))))))"

section \<open>Grepper\<close>

record Match =
  wrapped :: re_match
  pattern :: string

definition token :: "Match \<Rightarrow> int \<Rightarrow> error + string option" where
  "token m index = re_group (wrapped m) (TOKEN_GROUP_PREFIX @ str_int index)"

definition line :: "Match \<Rightarrow> string" where
  "line m = m_string (wrapped m)"

record Grepper =
  patterns :: "string list"
  regexes :: "re_pattern list"

definition map_pattern_to_re :: "string \<Rightarrow> error + re_pattern" where
  "map_pattern_to_re escaped =
     (case sub_tokens escaped {} escaped of
        Inl e \<Rightarrow> Inl e
      | Inr regex \<Rightarrow> re_compile (''^'' @ regex @ ''$''))"

text \<open>The generator of compiled patterns, consumed left to right; the first exception ends it.\<close>

fun compile_all :: "string list \<Rightarrow> error + re_pattern list" where
  "compile_all [] = Inr []"
| "compile_all (p # ps) =
     (case map_pattern_to_re (escape p) of
        Inl e \<Rightarrow> Inl e
      | Inr r \<Rightarrow> (case compile_all ps of Inl e \<Rightarrow> Inl e | Inr rs \<Rightarrow> Inr (r # rs)))"

definition Grepper_init :: "string list \<Rightarrow> error + Grepper" where
  "Grepper_init ps =
     (if ps = [] then Inl (ValueError ''One or more patterns is required'')
      else (case compile_all ps of
              Inl e \<Rightarrow> Inl e
            | Inr rs \<Rightarrow> Inr \<lparr>patterns = ps, regexes = rs\<rparr>))"

text \<open>
  The loop of \<open>match_line\<close> over \<open>enumerate(self.regexes)\<close>, from index \<open>i\<close> on. Falling off
  the end of the loop returns \<open>None\<close>.
\<close>

fun match_loop :: "string list \<Rightarrow> nat \<Rightarrow> re_pattern list \<Rightarrow> string \<Rightarrow> Match option" where
  "match_loop pats i [] ln = None"
| "match_loop pats i (regex # rs) ln =
     (case pattern_match regex ln of
        Some m \<Rightarrow> Some \<lparr>wrapped = m, pattern = pats ! i\<rparr>
      | None \<Rightarrow> match_loop pats (Suc i) rs ln)"

definition match_line :: "Grepper \<Rightarrow> string \<Rightarrow> Match option" where
  "match_line self ln = match_loop (patterns self) 0 (regexes self) ln"

section \<open>The template seen as pieces\<close>

text \<open>
  The placeholder syntax as the specification states it, read off the raw template:
  \<open>%{<digits>[<modifier>]}\<close> with the modifier \<open>G\<close> or \<open>S<digits>\<close>; every other character
  is literal. The program never computes this view: it escapes the template and looks for
  the escaped placeholders. The lemmas of the next sections relate the two.
\<close>

datatype modifier = NoModifier | Greedy | SpacesLimited string

datatype piece = Lit char | Tok string modifier

definition modifier_of :: "string option \<Rightarrow> modifier" where
  "modifier_of md =
     (case md of
        None \<Rightarrow> NoModifier
      | Some m \<Rightarrow> if m = ''G'' then Greedy else SpacesLimited (tl m))"

definition placeholder_at :: "string \<Rightarrow> (string \<times> string option \<times> string) option" where
  "placeholder_at s =
     (case strip_prefix ''%{'' s of
        None \<Rightarrow> None
      | Some r \<Rightarrow>
          if takeWhile is_digit r = [] then None
          else (case modifier_at (dropWhile is_digit r) of
                  (md, r2) \<Rightarrow>
                    (case strip_prefix ''}'' r2 of
                       None \<Rightarrow> None
                     | Some r3 \<Rightarrow> Some (takeWhile is_digit r, md, r3))))"

lemma placeholder_at_shorter:
  "placeholder_at s = Some (i, md, r) \<Longrightarrow> length r < length s"
  unfolding placeholder_at_def
  by (fastforce split: option.splits if_splits prod.splits
        dest!: strip_prefix_shorter modifier_at_length
        dest: le_trans [OF _ length_dropWhile_le])

function template_pieces :: "string \<Rightarrow> piece list" where
  "template_pieces [] = []"
| "template_pieces (c # cs) =
     (case placeholder_at (c # cs) of
        None \<Rightarrow> Lit c # template_pieces cs
      | Some (i, md, rest) \<Rightarrow> Tok i (modifier_of md) # template_pieces rest)"
  by pat_completeness auto
termination
  by (relation "measure length") (auto dest: placeholder_at_shorter)

primrec modifier_text :: "modifier \<Rightarrow> string" where
  "modifier_text NoModifier = []"
| "modifier_text Greedy = ''G''"
| "modifier_text (SpacesLimited ds) = CHR ''S'' # ds"

definition placeholder_text :: "string \<Rightarrow> modifier \<Rightarrow> string" where
  "placeholder_text i m = ''%{'' @ i @ modifier_text m @ ''}''"

primrec wf_modifier :: "modifier \<Rightarrow> bool" where
  "wf_modifier NoModifier = True"
| "wf_modifier Greedy = True"
| "wf_modifier (SpacesLimited ds) = (ds \<noteq> [] \<and> (\<forall>c \<in> set ds. is_digit c))"

primrec wf_piece :: "piece \<Rightarrow> bool" where
  "wf_piece (Lit c) = True"
| "wf_piece (Tok i m) = (i \<noteq> [] \<and> (\<forall>c \<in> set i. is_digit c) \<and> wf_modifier m)"

primrec body_text :: "modifier \<Rightarrow> string" where
  "body_text NoModifier = ''.*?''"
| "body_text Greedy = ''.*''"
| "body_text (SpacesLimited ds) = spaces_body ds"

primrec body_regex :: "modifier \<Rightarrow> regex" where
  "body_regex NoModifier = StarL AnyChar"
| "body_regex Greedy = StarG AnyChar"
| "body_regex (SpacesLimited ds) = spaces_regex (nat (int_of_digits ds))"

primrec piece_text :: "piece \<Rightarrow> string" where
  "piece_text (Lit c) = (if is_special c then [bs, c] else [c])"
| "piece_text (Tok i m) = group_text i (body_text m)"

primrec piece_regex :: "piece \<Rightarrow> regex" where
  "piece_regex (Lit c) = Atom (Ch c)"
| "piece_regex (Tok i m) = Grp (TOKEN_GROUP_PREFIX @ i) (body_regex m)"

fun first_duplicate :: "string set \<Rightarrow> piece list \<Rightarrow> (string \<times> modifier) option" where
  "first_duplicate seen [] = None"
| "first_duplicate seen (Lit c # ps) = first_duplicate seen ps"
| "first_duplicate seen (Tok i m # ps) =
     (if i \<in> seen then Some (i, m) else first_duplicate (insert i seen) ps)"

definition duplicate_error :: "string \<Rightarrow> modifier \<Rightarrow> string \<Rightarrow> error" where
  "duplicate_error i m whole =
     ValueError (''Duplicate token index '' @ placeholder_text i m @ '' in '' @
                 py_repr (unescape whole))"

text \<open>The error of the pattern parser on the repetition count of a piece, if any.\<close>

primrec piece_error :: "piece \<Rightarrow> error option" where
  "piece_error (Lit c) = None"
| "piece_error (Tok i m) =
     (case m of SpacesLimited ds \<Rightarrow> repeat_count_error ds | _ \<Rightarrow> None)"

fun first_error :: "piece list \<Rightarrow> error option" where
  "first_error [] = None"
| "first_error (p # ps) =
     (case piece_error p of Some e \<Rightarrow> Some e | None \<Rightarrow> first_error ps)"

primrec piece_indices :: "piece \<Rightarrow> string list" where
  "piece_indices (Lit c) = []"
| "piece_indices (Tok i m) = [i]"

definition declared_indices :: "piece list \<Rightarrow> string list" where
  "declared_indices ps = concat (map piece_indices ps)"

text \<open>What \<open>map_pattern_to_re\<close> is shown to build from the pieces of a template.\<close>

definition compiled_items :: "piece list \<Rightarrow> regex list" where
  "compiled_items ps = Bol # map piece_regex ps @ [Eol]"

definition compiled_text :: "piece list \<Rightarrow> string" where
  "compiled_text ps = ''^'' @ concat (map piece_text ps) @ ''$''"

text \<open>
  What a piece of a template can consume, stated on the text alone: a literal character
  consumes itself; an unmodified or greedy token any text without a newline; a
  spaces-limited token any text with exactly the given number of whitespace characters.
\<close>

primrec matches_modifier :: "modifier \<Rightarrow> string \<Rightarrow> bool" where
  "matches_modifier NoModifier s = (nl \<notin> set s)"
| "matches_modifier Greedy s = (nl \<notin> set s)"
| "matches_modifier (SpacesLimited ds) s = (length (filter is_space s) = nat (int_of_digits ds))"

primrec piece_matches :: "piece \<Rightarrow> string \<Rightarrow> bool" where
  "piece_matches (Lit c) s = (s = [c])"
| "piece_matches (Tok i m) s = matches_modifier m s"

text \<open>
  The group spans a match of the pieces \<open>ps\<close> on the texts \<open>ts\<close> records, \<open>r\<close> being what
  follows the last text in a subject of length \<open>n\<close>; the latest group comes first.
\<close>

fun captures :: "nat \<Rightarrow> piece list \<Rightarrow> string list \<Rightarrow> string \<Rightarrow> groups" where
  "captures n (Lit c # ps) (t # ts) r = captures n ps ts r"
| "captures n (Tok i m # ps) (t # ts) r =
     captures n ps ts r @
     [(TOKEN_GROUP_PREFIX @ i, n - length (t @ concat ts @ r), n - length (concat ts @ r))]"
| "captures n ps ts r = []"

text \<open>
  Soundness of a matcher for a set of texts: each of its results is a result of its
  continuation, called after a text of the set was consumed, with the groups unchanged.
\<close>

definition sound ::
  "(string \<Rightarrow> groups \<Rightarrow> (string \<Rightarrow> groups \<Rightarrow> 'a option) \<Rightarrow> 'a option) \<Rightarrow> (string \<Rightarrow> bool) \<Rightarrow> bool" where
  "sound f L = (\<forall>rest g k x. f rest g k = Some x \<longrightarrow>
      (\<exists>p rest'. rest = p @ rest' \<and> L p \<and> k rest' g = Some x))"

primrec piece_captures :: "nat \<Rightarrow> piece \<Rightarrow> string \<Rightarrow> string \<Rightarrow> groups" where
  "piece_captures n (Lit c) t r = []"
| "piece_captures n (Tok i m) t r =
     [(TOKEN_GROUP_PREFIX @ i, n - length (t @ r), n - length r)]"

section \<open>What the matcher hands to its continuation\<close>

text \<open>
  Every result of the matcher is a result of its continuation, called on a suffix of the
  subject: the matcher itself never invents a result.
\<close>

lemma star_greedy_result:
  "star_greedy cs rest k = Some x \<Longrightarrow> \<exists>p rest'. rest = p @ rest' \<and> k rest' = Some x"
proof (induction rest)
  case Nil
  then show ?case by auto
next
  case (Cons c r)
  show ?case
  proof (cases "in_cset cs c \<and> star_greedy cs r k \<noteq> None")
    case True
    with Cons.prems have "star_greedy cs r k = Some x" by (auto split: option.splits)
    from Cons.IH [OF this] obtain p rest' where "r = p @ rest'" "k rest' = Some x" by blast
    then have "c # r = (c # p) @ rest'" by simp
    with \<open>k rest' = Some x\<close> show ?thesis by blast
  next
    case False
    with Cons.prems have "k (c # r) = Some x" by (auto split: option.splits if_splits)
    then have "c # r = [] @ (c # r) \<and> k (c # r) = Some x" by simp
    then show ?thesis by blast
  qed
qed

lemma star_lazy_result:
  "star_lazy cs rest k = Some x \<Longrightarrow> \<exists>p rest'. rest = p @ rest' \<and> k rest' = Some x"
proof (induction rest)
  case Nil
  then show ?case by auto
next
  case (Cons c r)
  show ?case
  proof (cases "k (c # r)")
    case (Some y)
    with Cons.prems have "c # r = [] @ (c # r) \<and> k (c # r) = Some x" by simp
    then show ?thesis by blast
  next
    case None
    with Cons.prems have "star_lazy cs r k = Some x" by (auto split: if_splits)
    from Cons.IH [OF this] obtain p rest' where "r = p @ rest'" "k rest' = Some x" by blast
    then have "c # r = (c # p) @ rest'" by simp
    with \<open>k rest' = Some x\<close> show ?thesis by blast
  qed
qed

definition passes ::
  "(string \<Rightarrow> groups \<Rightarrow> (string \<Rightarrow> groups \<Rightarrow> 'a option) \<Rightarrow> 'a option) \<Rightarrow> bool" where
  "passes f = (\<forall>rest g k x. f rest g k = Some x \<longrightarrow>
      (\<exists>p rest' g'. rest = p @ rest' \<and> k rest' g' = Some x))"

lemma passesD:
  "passes f \<Longrightarrow> f rest g k = Some x \<Longrightarrow> \<exists>p rest' g'. rest = p @ rest' \<and> k rest' g' = Some x"
  unfolding passes_def by blast

lemma rep_passes: "passes f \<Longrightarrow> passes (rep c f)"
proof (induction c)
  case 0
  show ?case unfolding passes_def by auto
next
  case (Suc c)
  show ?case unfolding passes_def
  proof (intro allI impI)
    fix rest g k x assume "rep (Suc c) f rest g k = Some x"
    then have "f rest g (\<lambda>rest' g'. rep c f rest' g' k) = Some x" by simp
    from passesD [OF Suc.prems this] obtain p r1 g1 where
      1: "rest = p @ r1" "rep c f r1 g1 k = Some x" by blast
    from passesD [OF Suc.IH [OF Suc.prems] 1(2)] obtain q r2 g2 where
      2: "r1 = q @ r2" "k r2 g2 = Some x" by blast
    from 1 2 have "rest = (p @ q) @ r2" by simp
    with 2 show "\<exists>p rest' g'. rest = p @ rest' \<and> k rest' g' = Some x" by blast
  qed
qed

lemma sre_match_passes: "passes (sre_match n r)"
proof (induction r)
  case (Atom cs)
  show ?case unfolding passes_def
  proof (intro allI impI)
    fix rest g k x assume a: "sre_match n (Atom cs) rest g (k :: string \<Rightarrow> groups \<Rightarrow> 'a option) = Some x"
    then obtain c r where "rest = c # r" "k r g = Some x"
      by (cases rest) (auto split: if_splits)
    then have "rest = [c] @ r \<and> k r g = Some x" by simp
    then show "\<exists>p rest' g'. rest = p @ rest' \<and> k rest' g' = Some x" by blast
  qed
next
  case (StarG cs)
  show ?case unfolding passes_def by (auto dest!: star_greedy_result)
next
  case (StarL cs)
  show ?case unfolding passes_def by (auto dest!: star_lazy_result)
next
  case (Rep c r)
  from rep_passes [OF Rep.IH] show ?case by (simp add: passes_def)
next
  case (Seq a b)
  show ?case unfolding passes_def
  proof (intro allI impI)
    fix rest g k x assume "sre_match n (Seq a b) rest g (k :: string \<Rightarrow> groups \<Rightarrow> 'a option) = Some x"
    then have "sre_match n a rest g (\<lambda>rest' g'. sre_match n b rest' g' k) = Some x" by simp
    from passesD [OF Seq.IH(1) this] obtain p r1 g1 where
      1: "rest = p @ r1" "sre_match n b r1 g1 k = Some x" by blast
    from passesD [OF Seq.IH(2) 1(2)] obtain q r2 g2 where
      2: "r1 = q @ r2" "k r2 g2 = Some x" by blast
    from 1 2 have "rest = (p @ q) @ r2" by simp
    with 2 show "\<exists>p rest' g'. rest = p @ rest' \<and> k rest' g' = Some x" by blast
  qed
next
  case (Grp name r)
  show ?case unfolding passes_def
  proof (intro allI impI)
    fix rest g k x assume "sre_match n (Grp name r) rest g (k :: string \<Rightarrow> groups \<Rightarrow> 'a option) = Some x"
    then have "sre_match n r rest g
        (\<lambda>rest' g'. k rest' ((name, n - length rest, n - length rest') # g')) = Some x" by simp
    from passesD [OF Grp.IH this]
    show "\<exists>p rest' g'. rest = p @ rest' \<and> k rest' g' = Some x" by blast
  qed
next
  case Bol
  show ?case unfolding passes_def by (auto split: if_splits)
next
  case Eol
  show ?case unfolding passes_def by (auto split: if_splits)
qed

lemma match_items_passes: "passes (match_items n items)"
proof (induction items)
  case Nil
  show ?case unfolding passes_def by auto
next
  case (Cons r rs)
  show ?case unfolding passes_def
  proof (intro allI impI)
    fix rest g k x
    assume "match_items n (r # rs) rest g (k :: string \<Rightarrow> groups \<Rightarrow> 'a option) = Some x"
    then have "sre_match n r rest g (\<lambda>rest' g'. match_items n rs rest' g' k) = Some x" by simp
    from passesD [OF sre_match_passes this] obtain p r1 g1 where
      1: "rest = p @ r1" "match_items n rs r1 g1 k = Some x" by blast
    from passesD [OF Cons.IH 1(2)] obtain q r2 g2 where
      2: "r1 = q @ r2" "k r2 g2 = Some x" by blast
    from 1 2 have "rest = (p @ q) @ r2" by simp
    with 2 show "\<exists>p rest' g'. rest = p @ rest' \<and> k rest' g' = Some x" by blast
  qed
qed

lemma pattern_match_fields:
  assumes "pattern_match p ln = Some m"
  shows "m_string m = ln" and "m_re m = p" and "m_end m \<le> length ln"
proof -
  from assms have "match_items (length ln) (p_items p) ln []
       (\<lambda>rest g. Some \<lparr>m_string = ln, m_re = p,
                       m_end = length ln - length rest, m_groups = g\<rparr>) = Some m"
    unfolding pattern_match_def .
  from passesD [OF match_items_passes this]
  obtain q rest' g' where "ln = q @ rest'" and
    "Some \<lparr>m_string = ln, m_re = p, m_end = length ln - length rest', m_groups = g'\<rparr> = Some m"
    by auto
  then have m: "m = \<lparr>m_string = ln, m_re = p, m_end = length ln - length rest', m_groups = g'\<rparr>"
    by simp
  show "m_string m = ln" and "m_re m = p" and "m_end m \<le> length ln"
    by (simp_all add: m)
qed

section \<open>Escaping, then finding the placeholders\<close>

lemma digit_not_special: "is_digit c \<Longrightarrow> \<not> is_special c"
  by (auto simp: is_digit_def is_special_def)

lemma takeWhile_digit_escape: "takeWhile is_digit (escape s) = takeWhile is_digit s"
proof (induction s)
  case Nil
  show ?case by simp
next
  case (Cons c s)
  show ?case
  proof (cases "is_special c")
    case True
    then have "\<not> is_digit c" using digit_not_special by blast
    moreover have "\<not> is_digit bs" by (simp add: is_digit_def)
    ultimately show ?thesis using True by simp
  next
    case False
    then show ?thesis using Cons.IH by simp
  qed
qed

lemma dropWhile_digit_escape: "dropWhile is_digit (escape s) = escape (dropWhile is_digit s)"
proof (induction s)
  case Nil
  show ?case by simp
next
  case (Cons c s)
  show ?case
  proof (cases "is_special c")
    case True
    then have "\<not> is_digit c" using digit_not_special by blast
    moreover have "\<not> is_digit bs" by (simp add: is_digit_def)
    ultimately show ?thesis using True by simp
  next
    case False
    then show ?thesis using Cons.IH by simp
  qed
qed

lemma special_facts:
  "is_special bs" "is_special (CHR ''{'')" "is_special (CHR ''}'')"
  "\<not> is_special (CHR ''%'')" "\<not> is_special (CHR ''G'')" "\<not> is_special (CHR ''S'')"
  by (simp_all add: is_special_def)

lemma strip_close_escape:
  "strip_prefix [bs, CHR ''}''] (escape s) = map_option escape (strip_prefix ''}'' s)"
proof (cases s)
  case Nil
  then show ?thesis by simp
next
  case (Cons c cs)
  show ?thesis
  proof (cases "is_special c")
    case True
    then show ?thesis using Cons by auto
  next
    case False
    with special_facts have "c \<noteq> bs" "c \<noteq> CHR ''}''" by auto
    then show ?thesis using Cons False by simp
  qed
qed

lemma strip_open_escape:
  "strip_prefix [CHR ''%'', bs, CHR ''{''] (escape s) = map_option escape (strip_prefix ''%{'' s)"
proof (cases s)
  case Nil
  then show ?thesis by simp
next
  case s1: (Cons c cs)
  show ?thesis
  proof (cases "c = CHR ''%''")
    case False
    then show ?thesis using s1 by auto
  next
    case pc: True
    show ?thesis
    proof (cases cs)
      case Nil
      then show ?thesis using s1 pc special_facts by simp
    next
      case (Cons d ds)
      show ?thesis
      proof (cases "is_special d")
        case True
        then show ?thesis using s1 pc Cons special_facts by auto
      next
        case False
        with special_facts have "d \<noteq> bs" "d \<noteq> CHR ''{''" by auto
        then show ?thesis using s1 pc Cons False special_facts by simp
      qed
    qed
  qed
qed

lemma modifier_at_escape:
  "modifier_at (escape s) = (case modifier_at s of (md, r) \<Rightarrow> (md, escape r))"
proof (cases s)
  case Nil
  then show ?thesis by (simp add: modifier_at_def)
next
  case (Cons c cs)
  show ?thesis
  proof (cases "is_special c")
    case True
    with special_facts have "c \<noteq> CHR ''G''" "c \<noteq> CHR ''S''" by auto
    then show ?thesis using Cons True by (simp add: modifier_at_def)
  next
    case False
    then show ?thesis using Cons
      by (simp add: modifier_at_def takeWhile_digit_escape dropWhile_digit_escape)
  qed
qed

lemma escape_append: "escape (a @ b) = escape a @ escape b"
  by (induction a) auto

lemma length_escape_ge: "length s \<le> length (escape s)"
  by (induction s) auto

lemma token_capture_at_escape:
  "token_capture_at (escape s) =
     map_option (\<lambda>(i, md, r). (i, md, take (length (escape s) - length (escape r)) (escape s), escape r))
       (placeholder_at s)"
proof (cases "strip_prefix ''%{'' s")
  case None
  then show ?thesis
    by (simp add: token_capture_at_def placeholder_at_def strip_open_escape)
next
  case (Some r)
  note r = this
  show ?thesis
  proof (cases "takeWhile is_digit r = []")
    case True
    then show ?thesis using r
      by (simp add: token_capture_at_def placeholder_at_def strip_open_escape
            takeWhile_digit_escape)
  next
    case False
    obtain md r2 where m: "modifier_at (dropWhile is_digit r) = (md, r2)"
      by (cases "modifier_at (dropWhile is_digit r)")
    then have me: "modifier_at (dropWhile is_digit (escape r)) = (md, escape r2)"
      by (simp add: dropWhile_digit_escape modifier_at_escape)
    show ?thesis
    proof (cases "strip_prefix ''}'' r2")
      case None
      then show ?thesis using r False m me
        by (simp add: token_capture_at_def placeholder_at_def strip_open_escape
              takeWhile_digit_escape strip_close_escape)
    next
      case (Some r3)
      then show ?thesis using r False m me
        by (simp add: token_capture_at_def placeholder_at_def strip_open_escape
              takeWhile_digit_escape strip_close_escape)
    qed
  qed
qed

lemma strip_prefix_eq: "strip_prefix p s = Some r \<longleftrightarrow> s = p @ r"
  by (induction p s rule: strip_prefix.induct) auto

lemma modifier_at_shape:
  assumes "modifier_at s = (md, r)"
  shows "s = modifier_text (modifier_of md) @ r" and "wf_modifier (modifier_of md)"
proof -
  have "s = modifier_text (modifier_of md) @ r \<and> wf_modifier (modifier_of md)"
  proof (cases s)
    case Nil
    with assms show ?thesis by (simp add: modifier_at_def modifier_of_def)
  next
    case (Cons c cs)
    show ?thesis
    proof (cases "c = CHR ''G''")
      case True
      with assms Cons have "md = Some ''G''" "r = cs" by (auto simp: modifier_at_def)
      with True Cons show ?thesis by (simp add: modifier_of_def)
    next
      case nG: False
      show ?thesis
      proof (cases "c = CHR ''S'' \<and> takeWhile is_digit cs \<noteq> []")
        case True
        with assms Cons nG have md: "md = Some (CHR ''S'' # takeWhile is_digit cs)"
          and r: "r = dropWhile is_digit cs"
          by (simp_all add: modifier_at_def)
        have "\<forall>c \<in> set (takeWhile is_digit cs). is_digit c"
          by (auto dest: set_takeWhileD)
        with md r True Cons show ?thesis by (simp add: modifier_of_def)
      next
        case False
        with assms Cons nG have "md = None" "r = s"
          by (auto simp: modifier_at_def split: if_splits)
        then show ?thesis by (simp add: modifier_of_def)
      qed
    qed
  qed
  then show "s = modifier_text (modifier_of md) @ r" and "wf_modifier (modifier_of md)"
    by simp_all
qed

lemma placeholder_at_shape:
  assumes "placeholder_at s = Some (i, md, r)"
  shows "s = placeholder_text i (modifier_of md) @ r" and "wf_piece (Tok i (modifier_of md))"
proof -
  from assms obtain r1 where r1: "strip_prefix ''%{'' s = Some r1"
    unfolding placeholder_at_def by (auto split: option.splits)
  define i0 where "i0 = takeWhile is_digit r1"
  define d0 where "d0 = dropWhile is_digit r1"
  have r1s: "r1 = i0 @ d0" by (simp add: i0_def d0_def)
  from assms r1 have ne: "i0 \<noteq> []"
    unfolding placeholder_at_def i0_def by (auto split: if_splits)
  obtain md' r2 where m: "modifier_at d0 = (md', r2)"
    by (cases "modifier_at d0")
  from assms r1 ne m obtain r3 where r3: "strip_prefix ''}'' r2 = Some r3"
    unfolding placeholder_at_def i0_def d0_def by (auto split: option.splits)
  from assms r1 ne m r3 have eqs: "i = i0" "md = md'" "r = r3"
    unfolding placeholder_at_def i0_def d0_def by simp_all
  from r1 have s: "s = ''%{'' @ r1" by (simp add: strip_prefix_eq)
  from modifier_at_shape [OF m]
  have d: "d0 = modifier_text (modifier_of md') @ r2"
    and wf: "wf_modifier (modifier_of md')" by simp_all
  from r3 have r2: "r2 = ''}'' @ r3" by (simp add: strip_prefix_eq)
  show "s = placeholder_text i (modifier_of md) @ r"
    by (simp add: s r1s d r2 eqs placeholder_text_def)
  have "\<forall>c \<in> set i0. is_digit c"
    unfolding i0_def by (auto dest: set_takeWhileD)
  with ne wf eqs show "wf_piece (Tok i (modifier_of md))" by simp
qed

lemma template_pieces_wf: "\<forall>p \<in> set (template_pieces t). wf_piece p"
proof (induction t rule: template_pieces.induct)
  case 1
  show ?case by simp
next
  case (2 c cs)
  show ?case
  proof (cases "placeholder_at (c # cs)")
    case None
    with 2(1) show ?thesis by simp
  next
    case (Some x)
    obtain i md rest where x: "x = (i, md, rest)" by (cases x)
    from 2(2) [OF Some [unfolded x]] placeholder_at_shape(2) [OF Some [unfolded x]]
    show ?thesis using Some x by simp
  qed
qed

lemma unescape_escape:
  "unescape (escape s) = concat (map (\<lambda>c. if c = nl then [bs, nl] else [c]) s)"
proof (induction s)
  case Nil
  show ?case by simp
next
  case (Cons c s)
  show ?case
  proof (cases "is_special c")
    case sp: True
    show ?thesis
    proof (cases "c = nl")
      case True
      have "unescape (bs # nl # escape s) = bs # unescape (nl # escape s)" by simp
      also have "unescape (nl # escape s) = nl # unescape (escape s)"
        by (cases "escape s") simp_all
      finally show ?thesis using True sp Cons.IH by simp
    next
      case False
      then show ?thesis using sp Cons.IH by simp
    qed
  next
    case False
    then have "c \<noteq> bs" "c \<noteq> nl" by (auto simp: is_special_def)
    then have "unescape (c # escape s) = c # unescape (escape s)"
      by (cases "escape s") simp_all
    then show ?thesis using False \<open>c \<noteq> nl\<close> Cons.IH by simp
  qed
qed

lemma unescape_escape_id: "nl \<notin> set s \<Longrightarrow> unescape (escape s) = s"
proof -
  assume "nl \<notin> set s"
  then have "concat (map (\<lambda>c. if c = nl then [bs, nl] else [c]) s) = s"
    by (induction s) auto
  then show ?thesis by (simp add: unescape_escape)
qed

lemma nl_not_digit: "\<not> is_digit nl"
  by (simp add: is_digit_def)

lemma digits_no_nl: "\<forall>c \<in> set ds. is_digit c \<Longrightarrow> nl \<notin> set ds"
  using nl_not_digit by blast

lemma placeholder_text_no_nl:
  assumes "wf_piece (Tok i m)"
  shows "nl \<notin> set (placeholder_text i m)"
proof -
  from assms have i: "nl \<notin> set i" by (simp add: digits_no_nl)
  from assms have "nl \<notin> set (modifier_text m)"
    by (cases m) (simp_all add: digits_no_nl)
  with i show ?thesis by (simp add: placeholder_text_def)
qed

lemma token_capture_at_not_percent: "c \<noteq> CHR ''%'' \<Longrightarrow> token_capture_at (c # x) = None"
  by (simp add: token_capture_at_def)

lemma token_capture_at_Nil: "token_capture_at [] = None"
  by (simp add: token_capture_at_def)

lemma sub_tokens_None:
  assumes "token_capture_at (c # cs) = None"
  shows "sub_tokens w seen (c # cs) =
           (case sub_tokens w seen cs of Inl e \<Rightarrow> Inl e | Inr out \<Rightarrow> Inr (c # out))"
  using assms by simp

lemma sub_tokens_Some:
  assumes "token_capture_at s = Some (i, md, text, rest)"
  shows "sub_tokens w seen s =
           (case map_token_to_re
                   \<lparr>tm_group0 = text, tm_index = i, tm_modifier = md, tm_string = w\<rparr> seen of
              Inl e \<Rightarrow> Inl e
            | Inr (repl, seen') \<Rightarrow>
                (case sub_tokens w seen' rest of
                   Inl e \<Rightarrow> Inl e
                 | Inr out \<Rightarrow> Inr (repl @ out)))"
proof (cases s)
  case Nil
  with assms show ?thesis by (simp add: token_capture_at_Nil)
next
  case (Cons c cs)
  with assms show ?thesis by simp
qed

lemma map_token_to_re_eq:
  "map_token_to_re \<lparr>tm_group0 = text, tm_index = i, tm_modifier = md, tm_string = w\<rparr> seen =
     (if i \<in> seen
      then Inl (ValueError (''Duplicate token index '' @ unescape text @ '' in '' @
                            py_repr (unescape w)))
      else Inr (group_text i (body_text (modifier_of md)), insert i seen))"
  by (cases md)
     (simp_all add: map_token_to_re_def raise_on_duplicate_token_index_def modifier_of_def Let_def)

lemma token_capture_at_placeholder:
  assumes "placeholder_at s = Some (i, md, r)"
  shows "token_capture_at (escape s) =
           Some (i, md, escape (placeholder_text i (modifier_of md)), escape r)"
proof -
  from placeholder_at_shape(1) [OF assms]
  have s: "s = placeholder_text i (modifier_of md) @ r" .
  have "escape s = escape (placeholder_text i (modifier_of md)) @ escape r"
    by (subst s) (simp add: escape_append)
  then have "take (length (escape s) - length (escape r)) (escape s) =
             escape (placeholder_text i (modifier_of md))"
    by simp
  with assms show ?thesis by (simp add: token_capture_at_escape)
qed

lemma sub_tokens_escape:
  "sub_tokens w seen (escape t) =
     (case first_duplicate seen (template_pieces t) of
        Some (i, m) \<Rightarrow> Inl (duplicate_error i m w)
      | None \<Rightarrow> Inr (concat (map piece_text (template_pieces t))))"
proof (induction t arbitrary: seen rule: template_pieces.induct)
  case 1
  show ?case by simp
next
  case (2 c cs)
  show ?case
  proof (cases "placeholder_at (c # cs)")
    case None
    then have tp: "template_pieces (c # cs) = Lit c # template_pieces cs" by simp
    have none: "token_capture_at (escape (c # cs)) = None"
      using None by (simp add: token_capture_at_escape del: escape.simps)
    have "sub_tokens w seen (escape (c # cs)) =
            (case sub_tokens w seen (escape cs) of
               Inl e \<Rightarrow> Inl e
             | Inr out \<Rightarrow> Inr (piece_text (Lit c) @ out))"
    proof (cases "is_special c")
      case True
      then have "c \<noteq> CHR ''%''" using special_facts by auto
      then have "token_capture_at (c # escape cs) = None"
        by (rule token_capture_at_not_percent)
      moreover have "token_capture_at (bs # c # escape cs) = None"
        by (rule token_capture_at_not_percent) simp
      ultimately show ?thesis using True
        by (simp add: sub_tokens_None split: sum.splits)
    next
      case False
      with none have "token_capture_at (c # escape cs) = None" by simp
      then show ?thesis using False by (simp add: sub_tokens_None split: sum.splits)
    qed
    also note "2.IH"(1) [OF None, of seen]
    finally show ?thesis
      unfolding tp by (simp split: option.splits)
  next
    case (Some x)
    obtain i md rest where x: "x = (i, md, rest)" by (cases x)
    note ph = Some [unfolded x]
    have tp: "template_pieces (c # cs) = Tok i (modifier_of md) # template_pieces rest"
      using ph by simp
    from placeholder_at_shape(2) [OF ph]
    have "nl \<notin> set (placeholder_text i (modifier_of md))"
      by (rule placeholder_text_no_nl)
    then have un: "unescape (escape (placeholder_text i (modifier_of md))) =
                   placeholder_text i (modifier_of md)"
      by (rule unescape_escape_id)
    show ?thesis
    proof (cases "i \<in> seen")
      case True
      have "sub_tokens w seen (escape (c # cs)) = Inl (duplicate_error i (modifier_of md) w)"
        unfolding sub_tokens_Some [OF token_capture_at_placeholder [OF ph]] map_token_to_re_eq
        using True by (simp add: un duplicate_error_def)
      then show ?thesis unfolding tp using True by simp
    next
      case False
      have "sub_tokens w seen (escape (c # cs)) =
              (case sub_tokens w (insert i seen) (escape rest) of
                 Inl e \<Rightarrow> Inl e
               | Inr out \<Rightarrow> Inr (piece_text (Tok i (modifier_of md)) @ out))"
        unfolding sub_tokens_Some [OF token_capture_at_placeholder [OF ph]] map_token_to_re_eq
        using False by (simp split: sum.splits)
      also have "sub_tokens w (insert i seen) (escape rest) =
          (case first_duplicate (insert i seen) (template_pieces rest) of
             Some (i, m) \<Rightarrow> Inl (duplicate_error i m w)
           | None \<Rightarrow> Inr (concat (map piece_text (template_pieces rest))))"
        by (rule "2.IH"(2) [OF ph refl refl])
      finally show ?thesis
        unfolding tp using False by (simp split: option.splits)
    qed
  qed
qed

section \<open>Compiling the substituted text\<close>

lemma strip_prefix_append: "strip_prefix p (p @ z) = Some z"
  by (simp add: strip_prefix_eq)

lemma not_special_plain:
  assumes "\<not> is_special c"
  shows "c \<noteq> bs" "c \<noteq> CHR ''(''" "c \<notin> set ''.*+?{}[]|)''" "c \<noteq> CHR ''^''" "c \<noteq> CHR ''$''"
  using assms by (auto simp: is_special_def)

lemma special_not_alnum:
  assumes "is_special c"
  shows "\<not> is_alpha c" "\<not> is_digit c"
proof -
  show "\<not> is_digit c" using assms digit_not_special by blast
  show "\<not> is_alpha c"
  proof
    assume "is_alpha c"
    then have "c \<in> set ''abcdefghijklmnopqrstuvwxyzABCDEFGHIJKLMNOPQRSTUVWXYZ''"
      by (simp add: is_alpha_def)
    moreover have "\<forall>d \<in> set ''abcdefghijklmnopqrstuvwxyzABCDEFGHIJKLMNOPQRSTUVWXYZ''. \<not> is_special d"
      by (simp add: is_special_def)
    ultimately show False using assms by blast
  qed
qed

lemma parse_items_Lit:
  "parse_items (piece_text (Lit c) @ rest) =
     (case parse_items rest of Inl e \<Rightarrow> Inl e | Inr items \<Rightarrow> Inr (piece_regex (Lit c) # items))"
proof (cases "is_special c")
  case True
  from special_not_alnum [OF True] True show ?thesis by (simp split: sum.splits)
next
  case False
  from not_special_plain [OF False] False show ?thesis by (simp split: sum.splits)
qed


lemma digits_no_gt: "\<forall>c \<in> set ds. is_digit c \<Longrightarrow> \<forall>c \<in> set ds. c \<noteq> CHR ''>''"
proof -
  have "\<not> is_digit (CHR ''>'')" by (simp add: is_digit_def)
  then show "\<forall>c \<in> set ds. is_digit c \<Longrightarrow> \<forall>c \<in> set ds. c \<noteq> CHR ''>''" by blast
qed

lemma group_name_split:
  assumes "\<forall>c \<in> set i. is_digit c"
  shows "takeWhile (\<lambda>c. c \<noteq> CHR ''>'') (TOKEN_GROUP_PREFIX @ i @ ''>'' @ y) = TOKEN_GROUP_PREFIX @ i"
    and "dropWhile (\<lambda>c. c \<noteq> CHR ''>'') (TOKEN_GROUP_PREFIX @ i @ ''>'' @ y) = ''>'' @ y"
proof -
  have a: "\<forall>c \<in> set (TOKEN_GROUP_PREFIX @ i). c \<noteq> CHR ''>''"
    using digits_no_gt [OF assms] by (simp add: TOKEN_GROUP_PREFIX_def)
  have "takeWhile (\<lambda>c. c \<noteq> CHR ''>'') ((TOKEN_GROUP_PREFIX @ i) @ ''>'' @ y) = TOKEN_GROUP_PREFIX @ i"
    using a by (subst takeWhile_append2) auto
  then show "takeWhile (\<lambda>c. c \<noteq> CHR ''>'') (TOKEN_GROUP_PREFIX @ i @ ''>'' @ y) = TOKEN_GROUP_PREFIX @ i"
    by simp
  have "dropWhile (\<lambda>c. c \<noteq> CHR ''>'') ((TOKEN_GROUP_PREFIX @ i) @ ''>'' @ y) = ''>'' @ y"
    using a by (subst dropWhile_append2) auto
  then show "dropWhile (\<lambda>c. c \<noteq> CHR ''>'') (TOKEN_GROUP_PREFIX @ i @ ''>'' @ y) = ''>'' @ y"
    by simp
qed

lemma token_name_identifier:
  assumes "\<forall>c \<in> set i. is_digit c"
  shows "is_identifier (TOKEN_GROUP_PREFIX @ i)"
proof -
  have "is_alpha (CHR ''t'')" "is_alpha (CHR ''o'')" "is_alpha (CHR ''k'')"
    "is_alpha (CHR ''e'')" "is_alpha (CHR ''n'')"
    by (simp_all add: is_alpha_def)
  with assms show ?thesis
    by (auto simp: is_identifier_def TOKEN_GROUP_PREFIX_def)
qed

lemma digits_split:
  assumes "\<forall>c \<in> set ds. is_digit c"
  shows "takeWhile is_digit (ds @ CHR ''}'' # y) = ds"
    and "dropWhile is_digit (ds @ CHR ''}'' # y) = CHR ''}'' # y"
proof -
  have n: "\<not> is_digit (CHR ''}'')" by (simp add: is_digit_def)
  show "takeWhile is_digit (ds @ CHR ''}'' # y) = ds"
    using assms n by (subst takeWhile_append2) auto
  show "dropWhile is_digit (ds @ CHR ''}'' # y) = CHR ''}'' # y"
    using assms n by (subst dropWhile_append2) auto
qed

lemma parse_body_text:
  assumes "wf_modifier m"
  shows "parse_body (body_text m @ '')'' @ rest) =
           (case piece_error (Tok i m) of
              Some e \<Rightarrow> Inl e
            | None \<Rightarrow> Inr (body_regex m, rest))"
proof (cases m)
  case NoModifier
  then show ?thesis by (simp add: parse_body_def)
next
  case Greedy
  then show ?thesis by (simp add: parse_body_def)
next
  case (SpacesLimited ds)
  with assms have ds: "ds \<noteq> []" "\<forall>c \<in> set ds. is_digit c" by simp_all
  have bt: "body_text m @ '')'' @ rest = spaces_open @ ds @ CHR ''}'' # ([bs] @ ''S*)'' @ rest)"
    using SpacesLimited by (simp add: spaces_body_def spaces_open_def)
  have n1: "strip_prefix ''.*?)'' (spaces_open @ z) = None" for z
    by (simp add: spaces_open_def)
  have n2: "strip_prefix ''.*)'' (spaces_open @ z) = None" for z
    by (simp add: spaces_open_def)
  have cl: "strip_prefix spaces_close (CHR ''}'' # bs # CHR ''S'' # CHR ''*'' # CHR '')'' # rest) =
      Some rest"
    by (simp add: spaces_close_def)
  have nd: "\<not> is_digit (CHR ''}'')" by (simp add: is_digit_def)
  show ?thesis
    unfolding bt parse_body_def
    using ds SpacesLimited
    by (simp add: n1 n2 strip_prefix_append nd cl split: option.splits)
qed

lemma parse_group_text:
  assumes "wf_piece (Tok i m)"
  shows "parse_group (''?P<'' @ TOKEN_GROUP_PREFIX @ i @ ''>'' @ body_text m @ '')'' @ rest) =
           (case piece_error (Tok i m) of
              Some e \<Rightarrow> Inl e
            | None \<Rightarrow> Inr (piece_regex (Tok i m), rest))"
proof -
  from assms have i: "\<forall>c \<in> set i. is_digit c" and m: "wf_modifier m" by simp_all
  have sp: "strip_prefix ''?P<'' (''?P<'' @ z) = Some z" for z by simp
  have cl: "strip_prefix ''>'' (''>'' @ z) = Some z" for z by simp
  show ?thesis
    unfolding parse_group_def sp
    by (simp only: option.case group_name_split [OF i] cl token_name_identifier [OF i]
          parse_body_text [OF m, of _ i] not_True_eq_False if_False)
       (simp split: option.splits)
qed

lemma parse_items_Tok:
  assumes "wf_piece (Tok i m)"
  shows "parse_items (piece_text (Tok i m) @ rest) =
     (case piece_error (Tok i m) of
        Some e \<Rightarrow> Inl e
      | None \<Rightarrow>
          (case parse_items rest of
             Inl e \<Rightarrow> Inl e
           | Inr items \<Rightarrow> Inr (piece_regex (Tok i m) # items)))"
proof -
  have "piece_text (Tok i m) @ rest =
        CHR ''('' # (''?P<'' @ TOKEN_GROUP_PREFIX @ i @ ''>'' @ body_text m @ '')'' @ rest)"
    by (simp add: group_text_def)
  then have eq: "parse_items (piece_text (Tok i m) @ rest) =
      (case parse_group (''?P<'' @ TOKEN_GROUP_PREFIX @ i @ ''>'' @ body_text m @ '')'' @ rest) of
         Inl e \<Rightarrow> Inl e
       | Inr (g, r') \<Rightarrow>
           (case parse_items r' of Inl e \<Rightarrow> Inl e | Inr items \<Rightarrow> Inr (g # items)))"
    by (simp del: piece_text.simps)
  show ?thesis
  proof (cases "piece_error (Tok i m)")
    case None
    with parse_group_text [OF assms, of rest]
    have "parse_group (''?P<'' @ TOKEN_GROUP_PREFIX @ i @ ''>'' @ body_text m @ '')'' @ rest) =
          Inr (piece_regex (Tok i m), rest)" by simp
    then show ?thesis unfolding eq None by (simp split: sum.splits)
  next
    case (Some e)
    with parse_group_text [OF assms, of rest]
    have "parse_group (''?P<'' @ TOKEN_GROUP_PREFIX @ i @ ''>'' @ body_text m @ '')'' @ rest) =
          Inl e" by simp
    then show ?thesis unfolding eq Some by simp
  qed
qed

lemma parse_items_pieces:
  assumes "\<forall>p \<in> set ps. wf_piece p"
  shows "parse_items (concat (map piece_text ps) @ rest) =
     (case first_error ps of
        Some e \<Rightarrow> Inl e
      | None \<Rightarrow>
          (case parse_items rest of
             Inl e \<Rightarrow> Inl e
           | Inr items \<Rightarrow> Inr (map piece_regex ps @ items)))"
  using assms
proof (induction ps)
  case Nil
  show ?case by (simp split: sum.splits)
next
  case (Cons p ps)
  then have ih: "parse_items (concat (map piece_text ps) @ rest) =
     (case first_error ps of
        Some e \<Rightarrow> Inl e
      | None \<Rightarrow>
          (case parse_items rest of
             Inl e \<Rightarrow> Inl e
           | Inr items \<Rightarrow> Inr (map piece_regex ps @ items)))" by simp
  show ?case
  proof (cases p)
    case (Lit c)
    have "parse_items (concat (map piece_text (Lit c # ps)) @ rest) =
          parse_items (piece_text (Lit c) @ (concat (map piece_text ps) @ rest))"
      by (simp del: piece_text.simps)
    also have "\<dots> =
          (case parse_items (concat (map piece_text ps) @ rest) of
             Inl e \<Rightarrow> Inl e
           | Inr items \<Rightarrow> Inr (piece_regex (Lit c) # items))"
      by (rule parse_items_Lit)
    finally show ?thesis
      unfolding ih Lit by (simp split: sum.splits option.splits)
  next
    case (Tok i m)
    with Cons.prems have wf: "wf_piece (Tok i m)" by simp
    have "parse_items (concat (map piece_text (Tok i m # ps)) @ rest) =
          parse_items (piece_text (Tok i m) @ (concat (map piece_text ps) @ rest))"
      by (simp del: piece_text.simps)
    also have "\<dots> =
          (case piece_error (Tok i m) of
             Some e \<Rightarrow> Inl e
           | None \<Rightarrow>
               (case parse_items (concat (map piece_text ps) @ rest) of
                  Inl e \<Rightarrow> Inl e
                | Inr items \<Rightarrow> Inr (piece_regex (Tok i m) # items)))"
      by (rule parse_items_Tok [OF wf])
    finally show ?thesis
      unfolding ih Tok by (simp split: sum.splits option.splits)
  qed
qed

lemma parse_items_compiled_text:
  assumes "\<forall>p \<in> set ps. wf_piece p"
  shows "parse_items (compiled_text ps) =
     (case first_error ps of Some e \<Rightarrow> Inl e | None \<Rightarrow> Inr (compiled_items ps))"
proof -
  have d: "parse_items ''$'' = Inr [Eol]" by simp
  have "parse_items (compiled_text ps) =
        (case parse_items (concat (map piece_text ps) @ ''$'') of
           Inl e \<Rightarrow> Inl e
         | Inr items \<Rightarrow> Inr (Bol # items))"
    by (simp add: compiled_text_def)
  also have "parse_items (concat (map piece_text ps) @ ''$'') =
     (case first_error ps of
        Some e \<Rightarrow> Inl e
      | None \<Rightarrow> Inr (map piece_regex ps @ [Eol]))"
    unfolding parse_items_pieces [OF assms] d by (simp split: option.splits)
  finally show ?thesis
    by (simp add: compiled_items_def split: option.splits)
qed


lemma group_names_body: "group_names (body_regex m) = []"
  by (cases m) (simp_all add: spaces_regex_def)

lemma group_names_piece:
  "group_names (piece_regex p) = map ((@) TOKEN_GROUP_PREFIX) (piece_indices p)"
  by (cases p) (simp_all add: group_names_body)

lemma group_names_pieces:
  "concat (map group_names (map piece_regex ps)) =
     map ((@) TOKEN_GROUP_PREFIX) (declared_indices ps)"
  by (induction ps) (simp_all add: declared_indices_def group_names_piece)

lemma group_names_compiled:
  "concat (map group_names (compiled_items ps)) =
     map ((@) TOKEN_GROUP_PREFIX) (declared_indices ps)"
  using group_names_pieces [of ps] by (simp add: compiled_items_def)

lemma declared_indices_Cons:
  "declared_indices (Lit c # ps) = declared_indices ps"
  "declared_indices (Tok i m # ps) = i # declared_indices ps"
  "declared_indices [] = []"
  by (simp_all add: declared_indices_def)

lemma first_duplicate_None:
  "first_duplicate seen ps = None \<longleftrightarrow>
     distinct (declared_indices ps) \<and> set (declared_indices ps) \<inter> seen = {}"
proof (induction seen ps rule: first_duplicate.induct)
  case (1 seen)
  show ?case by (simp add: declared_indices_Cons)
next
  case (2 seen c ps)
  then show ?case by (simp add: declared_indices_Cons)
next
  case (3 seen i m ps)
  show ?case
  proof (cases "i \<in> seen")
    case True
    then show ?thesis by (auto simp: declared_indices_Cons)
  next
    case False
    with 3 have "first_duplicate seen (Tok i m # ps) = None \<longleftrightarrow>
        distinct (declared_indices ps) \<and> set (declared_indices ps) \<inter> insert i seen = {}"
      by simp
    also have "\<dots> \<longleftrightarrow> distinct (declared_indices (Tok i m # ps)) \<and>
        set (declared_indices (Tok i m # ps)) \<inter> seen = {}"
      using False by (auto simp: declared_indices_Cons)
    finally show ?thesis .
  qed
qed

lemma distinct_group_names:
  "distinct (concat (map group_names (compiled_items ps))) \<longleftrightarrow> distinct (declared_indices ps)"
  by (simp add: group_names_compiled distinct_map inj_on_def)


lemma map_pattern_to_re_escape:
  "map_pattern_to_re (escape t) =
     (case first_duplicate {} (template_pieces t) of
        Some (i, m) \<Rightarrow> Inl (duplicate_error i m (escape t))
      | None \<Rightarrow>
          (case first_error (template_pieces t) of
             Some e \<Rightarrow> Inl e
           | None \<Rightarrow> Inr \<lparr>p_text = compiled_text (template_pieces t),
                            p_items = compiled_items (template_pieces t)\<rparr>))"
proof (cases "first_duplicate {} (template_pieces t)")
  case (Some x)
  obtain i m where x: "x = (i, m)" by (cases x)
  have "sub_tokens (escape t) {} (escape t) = Inl (duplicate_error i m (escape t))"
    unfolding sub_tokens_escape Some x by simp
  then show ?thesis
    unfolding map_pattern_to_re_def Some x by simp
next
  case None
  then have d: "distinct (declared_indices (template_pieces t))"
    by (simp add: first_duplicate_None)
  have sub: "sub_tokens (escape t) {} (escape t) =
             Inr (concat (map piece_text (template_pieces t)))"
    unfolding sub_tokens_escape None by simp
  have "map_pattern_to_re (escape t) = re_compile (compiled_text (template_pieces t))"
    unfolding map_pattern_to_re_def sub by (simp add: compiled_text_def)
  also have "\<dots> =
      (case first_error (template_pieces t) of
         Some e \<Rightarrow> Inl e
       | None \<Rightarrow> Inr \<lparr>p_text = compiled_text (template_pieces t),
                        p_items = compiled_items (template_pieces t)\<rparr>)"
  proof (cases "first_error (template_pieces t)")
    case None
    then show ?thesis
      unfolding re_compile_def parse_items_compiled_text [OF template_pieces_wf]
      using d by (simp add: distinct_group_names)
  next
    case (Some e)
    then show ?thesis
      unfolding re_compile_def parse_items_compiled_text [OF template_pieces_wf]
      by simp
  qed
  finally show ?thesis unfolding None by simp
qed

section \<open>Anchoring\<close>

lemma match_items_append:
  "match_items n (a @ b) rest g k =
     match_items n a rest g (\<lambda>rest' g'. match_items n b rest' g' k)"
  by (induction a arbitrary: rest g k) simp_all

lemma pattern_match_anchored:
  assumes items: "p_items p = front @ [Eol]"
    and m: "pattern_match p ln = Some m"
  shows "m_end m = length ln \<or> (\<exists>pre. ln = pre @ [nl] \<and> m_end m = length pre)"
proof -
  let ?k = "\<lambda>rest g. Some \<lparr>m_string = ln, m_re = p,
                              m_end = length ln - length rest, m_groups = g\<rparr>"
  from m have "match_items (length ln) front ln []
      (\<lambda>rest' g'. match_items (length ln) [Eol] rest' g' ?k) = Some m"
    unfolding pattern_match_def items match_items_append .
  from passesD [OF match_items_passes this] obtain q rest' g' where
    ln: "ln = q @ rest'" and e: "match_items (length ln) [Eol] rest' g' ?k = Some m"
    by blast
  from e have r: "rest' = [] \<or> rest' = [nl]" and
    mm: "m = \<lparr>m_string = ln, m_re = p, m_end = length ln - length rest', m_groups = g'\<rparr>"
    by (auto split: if_splits)
  from r show ?thesis
  proof
    assume "rest' = []"
    with mm show ?thesis by simp
  next
    assume "rest' = [nl]"
    with mm ln have "ln = q @ [nl] \<and> m_end m = length q" by simp
    then show ?thesis by blast
  qed
qed

lemma compiled_items_Eol: "compiled_items ps = (Bol # map piece_regex ps) @ [Eol]"
  by (simp add: compiled_items_def)

lemma map_pattern_to_re_items:
  assumes "map_pattern_to_re (escape t) = Inr p"
  shows "p_items p = compiled_items (template_pieces t)"
    and "p_text p = compiled_text (template_pieces t)"
    and "first_duplicate {} (template_pieces t) = None"
    and "first_error (template_pieces t) = None"
proof -
  from assms have a: "first_duplicate {} (template_pieces t) = None"
    unfolding map_pattern_to_re_escape by (auto split: option.splits)
  with assms have b: "first_error (template_pieces t) = None"
    unfolding map_pattern_to_re_escape by (auto split: option.splits)
  from assms a b have "p = \<lparr>p_text = compiled_text (template_pieces t),
                             p_items = compiled_items (template_pieces t)\<rparr>"
    unfolding map_pattern_to_re_escape by simp
  then show "p_items p = compiled_items (template_pieces t)"
    and "p_text p = compiled_text (template_pieces t)" by simp_all
  show "first_duplicate {} (template_pieces t) = None" by (rule a)
  show "first_error (template_pieces t) = None" by (rule b)
qed

lemma compiled_match_anchored:
  assumes "map_pattern_to_re (escape t) = Inr p" and "pattern_match p ln = Some m"
  shows "m_end m = length ln \<or> (\<exists>pre. ln = pre @ [nl] \<and> m_end m = length pre)"
proof -
  from map_pattern_to_re_items(1) [OF assms(1)]
  have "p_items p = (Bol # map piece_regex (template_pieces t)) @ [Eol]"
    by (simp add: compiled_items_Eol)
  from pattern_match_anchored [OF this assms(2)] show ?thesis .
qed

section \<open>The loop of \<open>match_line\<close>\<close>

lemma match_loop_None:
  "match_loop pats i rs ln = None \<longleftrightarrow> (\<forall>j < length rs. pattern_match (rs ! j) ln = None)"
proof (induction rs arbitrary: i)
  case Nil
  show ?case by simp
next
  case (Cons r rs)
  show ?case
  proof (cases "pattern_match r ln")
    case None
    then show ?thesis
      using Cons.IH [of "Suc i"] by (auto simp: nth_Cons split: nat.splits)
  next
    case (Some m)
    then show ?thesis by force
  qed
qed

lemma match_loop_Some:
  "match_loop pats i rs ln = Some m \<Longrightarrow>
   \<exists>j < length rs. pattern_match (rs ! j) ln = Some (wrapped m) \<and> pattern m = pats ! (i + j) \<and>
      (\<forall>j' < j. pattern_match (rs ! j') ln = None)"
proof (induction rs arbitrary: i)
  case Nil
  then show ?case by simp
next
  case (Cons r rs)
  show ?case
  proof (cases "pattern_match r ln")
    case (Some m')
    with Cons.prems have "m = \<lparr>wrapped = m', pattern = pats ! i\<rparr>" by simp
    with Some have "pattern_match ((r # rs) ! 0) ln = Some (wrapped m) \<and> pattern m = pats ! (i + 0) \<and>
        (\<forall>j' < 0. pattern_match ((r # rs) ! j') ln = None)" by simp
    then show ?thesis by blast
  next
    case None
    with Cons.prems have "match_loop pats (Suc i) rs ln = Some m" by simp
    from Cons.IH [OF this] obtain j where j: "j < length rs"
      "pattern_match (rs ! j) ln = Some (wrapped m)" "pattern m = pats ! (Suc i + j)"
      "\<forall>j' < j. pattern_match (rs ! j') ln = None" by blast
    have "\<forall>j' < Suc j. pattern_match ((r # rs) ! j') ln = None"
      using None j(4) by (auto simp: nth_Cons split: nat.splits)
    with j have "Suc j < length (r # rs) \<and> pattern_match ((r # rs) ! Suc j) ln = Some (wrapped m) \<and>
        pattern m = pats ! (i + Suc j) \<and> (\<forall>j' < Suc j. pattern_match ((r # rs) ! j') ln = None)"
      by simp
    then show ?thesis by blast
  qed
qed

lemma compile_all_nth:
  "compile_all ps = Inr rs \<Longrightarrow>
   length rs = length ps \<and> (\<forall>j < length ps. map_pattern_to_re (escape (ps ! j)) = Inr (rs ! j))"
proof (induction ps arbitrary: rs)
  case Nil
  then show ?case by simp
next
  case (Cons p ps)
  from Cons.prems obtain r rs' where r: "map_pattern_to_re (escape p) = Inr r"
    and rs': "compile_all ps = Inr rs'" and rs: "rs = r # rs'"
    by (auto split: sum.splits)
  from Cons.IH [OF rs'] r rs show ?case
    by (auto simp: nth_Cons split: nat.splits)
qed

lemma Grepper_init_fields:
  assumes "Grepper_init ps = Inr g"
  shows "patterns g = ps" and "length (regexes g) = length ps"
    and "\<forall>j < length ps. map_pattern_to_re (escape (ps ! j)) = Inr (regexes g ! j)"
    and "ps \<noteq> []"
proof -
  from assms obtain rs where rs: "compile_all ps = Inr rs"
    and g: "g = \<lparr>patterns = ps, regexes = rs\<rparr>" and ne: "ps \<noteq> []"
    unfolding Grepper_init_def by (auto split: if_splits sum.splits)
  from compile_all_nth [OF rs] g ne
  show "patterns g = ps" and "length (regexes g) = length ps"
    and "\<forall>j < length ps. map_pattern_to_re (escape (ps ! j)) = Inr (regexes g ! j)"
    and "ps \<noteq> []"
    by simp_all
qed

section \<open>What a match consumes\<close>

lemma soundD:
  "sound f L \<Longrightarrow> f rest g k = Some x \<Longrightarrow> \<exists>p rest'. rest = p @ rest' \<and> L p \<and> k rest' g = Some x"
  unfolding sound_def by blast

lemma soundI:
  "(\<And>rest g k x. f rest g k = Some x \<Longrightarrow> \<exists>p rest'. rest = p @ rest' \<and> L p \<and> k rest' g = Some x)
   \<Longrightarrow> sound f L"
  unfolding sound_def by blast

lemma sound_weaken: "sound f L \<Longrightarrow> (\<And>s. L s \<Longrightarrow> L' s) \<Longrightarrow> sound f L'"
  unfolding sound_def by blast

lemma star_greedy_sound:
  "star_greedy cs rest k = Some x \<Longrightarrow>
   \<exists>p rest'. rest = p @ rest' \<and> (\<forall>c \<in> set p. in_cset cs c) \<and> k rest' = Some x"
proof (induction rest)
  case Nil
  then have k: "k [] = Some x" by simp
  show ?case
  proof (intro exI conjI)
    show "[] = [] @ ([] :: string)" by simp
    show "\<forall>c \<in> set []. in_cset cs c" by simp
    show "k [] = Some x" by (rule k)
  qed
next
  case (Cons c r)
  show ?case
  proof (cases "in_cset cs c \<and> star_greedy cs r k \<noteq> None")
    case True
    with Cons.prems have "star_greedy cs r k = Some x" by (auto split: option.splits)
    from Cons.IH [OF this] obtain p rest' where
      p: "r = p @ rest'" "\<forall>c \<in> set p. in_cset cs c" "k rest' = Some x" by blast
    show ?thesis
    proof (intro exI conjI)
      show "c # r = (c # p) @ rest'" using p(1) by simp
      show "\<forall>d \<in> set (c # p). in_cset cs d" using True p(2) by simp
      show "k rest' = Some x" by (rule p(3))
    qed
  next
    case False
    with Cons.prems have k: "k (c # r) = Some x" by (auto split: option.splits if_splits)
    show ?thesis
    proof (intro exI conjI)
      show "c # r = [] @ (c # r)" by simp
      show "\<forall>d \<in> set []. in_cset cs d" by simp
      show "k (c # r) = Some x" by (rule k)
    qed
  qed
qed

lemma star_lazy_sound:
  "star_lazy cs rest k = Some x \<Longrightarrow>
   \<exists>p rest'. rest = p @ rest' \<and> (\<forall>c \<in> set p. in_cset cs c) \<and> k rest' = Some x"
proof (induction rest)
  case Nil
  then have k: "k [] = Some x" by simp
  show ?case
  proof (intro exI conjI)
    show "[] = [] @ ([] :: string)" by simp
    show "\<forall>c \<in> set []. in_cset cs c" by simp
    show "k [] = Some x" by (rule k)
  qed
next
  case (Cons c r)
  show ?case
  proof (cases "k (c # r)")
    case (Some y)
    with Cons.prems have k: "k (c # r) = Some x" by simp
    show ?thesis
    proof (intro exI conjI)
      show "c # r = [] @ (c # r)" by simp
      show "\<forall>d \<in> set []. in_cset cs d" by simp
      show "k (c # r) = Some x" by (rule k)
    qed
  next
    case None
    with Cons.prems have c: "in_cset cs c" and "star_lazy cs r k = Some x"
      by (auto split: if_splits)
    from Cons.IH [OF this(2)] obtain p rest' where
      p: "r = p @ rest'" "\<forall>c \<in> set p. in_cset cs c" "k rest' = Some x" by blast
    show ?thesis
    proof (intro exI conjI)
      show "c # r = (c # p) @ rest'" using p(1) by simp
      show "\<forall>d \<in> set (c # p). in_cset cs d" using c p(2) by simp
      show "k rest' = Some x" by (rule p(3))
    qed
  qed
qed

lemma sound_StarG: "sound (sre_match n (StarG cs)) (\<lambda>p. \<forall>c \<in> set p. in_cset cs c)"
proof (rule soundI)
  fix rest g and k :: "string \<Rightarrow> groups \<Rightarrow> 'a option" and x
  assume "sre_match n (StarG cs) rest g k = Some x"
  then have "star_greedy cs rest (\<lambda>r. k r g) = Some x" by simp
  from star_greedy_sound [OF this]
  show "\<exists>p rest'. rest = p @ rest' \<and> (\<forall>c \<in> set p. in_cset cs c) \<and> k rest' g = Some x" .
qed

lemma sound_StarL: "sound (sre_match n (StarL cs)) (\<lambda>p. \<forall>c \<in> set p. in_cset cs c)"
proof (rule soundI)
  fix rest g and k :: "string \<Rightarrow> groups \<Rightarrow> 'a option" and x
  assume "sre_match n (StarL cs) rest g k = Some x"
  then have "star_lazy cs rest (\<lambda>r. k r g) = Some x" by simp
  from star_lazy_sound [OF this]
  show "\<exists>p rest'. rest = p @ rest' \<and> (\<forall>c \<in> set p. in_cset cs c) \<and> k rest' g = Some x" .
qed

lemma sound_Atom: "sound (sre_match n (Atom cs)) (\<lambda>p. \<exists>c. p = [c] \<and> in_cset cs c)"
proof (rule soundI)
  fix rest g and k :: "string \<Rightarrow> groups \<Rightarrow> 'a option" and x
  assume "sre_match n (Atom cs) rest g k = Some x"
  then obtain c r where "rest = c # r" "in_cset cs c" "k r g = Some x"
    by (cases rest) (auto split: if_splits)
  then have "rest = [c] @ r \<and> (\<exists>d. [c] = [d] \<and> in_cset cs d) \<and> k r g = Some x" by simp
  then show "\<exists>p rest'. rest = p @ rest' \<and> (\<exists>c. p = [c] \<and> in_cset cs c) \<and> k rest' g = Some x"
    by blast
qed

lemma sound_Seq:
  fixes n :: nat
  assumes "sound (sre_match n a :: string \<Rightarrow> groups \<Rightarrow> (string \<Rightarrow> groups \<Rightarrow> 'a option) \<Rightarrow> 'a option) La"
    and "sound (sre_match n b :: string \<Rightarrow> groups \<Rightarrow> (string \<Rightarrow> groups \<Rightarrow> 'a option) \<Rightarrow> 'a option) Lb"
  shows "sound (sre_match n (Seq a b) :: string \<Rightarrow> groups \<Rightarrow> (string \<Rightarrow> groups \<Rightarrow> 'a option) \<Rightarrow> 'a option)
           (\<lambda>p. \<exists>u v. p = u @ v \<and> La u \<and> Lb v)"
proof (rule soundI)
  fix rest g and k :: "string \<Rightarrow> groups \<Rightarrow> 'a option" and x
  assume "sre_match n (Seq a b) rest g k = Some x"
  then have "sre_match n a rest g (\<lambda>rest' g'. sre_match n b rest' g' k) = Some x" by simp
  from soundD [OF assms(1) this] obtain u r1 where
    1: "rest = u @ r1" "La u" "sre_match n b r1 g k = Some x" by blast
  from soundD [OF assms(2) 1(3)] obtain v r2 where
    2: "r1 = v @ r2" "Lb v" "k r2 g = Some x" by blast
  show "\<exists>p rest'. rest = p @ rest' \<and> (\<exists>u v. p = u @ v \<and> La u \<and> Lb v) \<and> k rest' g = Some x"
  proof (intro exI conjI)
    show "rest = (u @ v) @ r2" using 1(1) 2(1) by simp
    show "u @ v = u @ v" by (rule refl)
    show "La u" by (rule 1(2))
    show "Lb v" by (rule 2(2))
    show "k r2 g = Some x" by (rule 2(3))
  qed
qed

lemma sound_rep:
  fixes f :: "string \<Rightarrow> groups \<Rightarrow> (string \<Rightarrow> groups \<Rightarrow> 'a option) \<Rightarrow> 'a option"
  assumes "sound f L"
  shows "sound (rep c f) (\<lambda>p. \<exists>ss. length ss = c \<and> p = concat ss \<and> (\<forall>s \<in> set ss. L s))"
proof (induction c)
  case 0
  show ?case
  proof (rule soundI)
    fix rest g and k :: "string \<Rightarrow> groups \<Rightarrow> 'a option" and x
    assume "rep 0 f rest g k = Some x"
    then have k: "k rest g = Some x" by simp
    show "\<exists>p rest'. rest = p @ rest' \<and>
      (\<exists>ss. length ss = 0 \<and> p = concat ss \<and> (\<forall>s \<in> set ss. L s)) \<and> k rest' g = Some x"
    proof (intro exI conjI)
      show "rest = [] @ rest" by simp
      show "length ([] :: string list) = 0" by simp
      show "[] = concat ([] :: string list)" by simp
      show "\<forall>s \<in> set []. L s" by simp
      show "k rest g = Some x" by (rule k)
    qed
  qed
next
  case (Suc c)
  show ?case
  proof (rule soundI)
    fix rest g and k :: "string \<Rightarrow> groups \<Rightarrow> 'a option" and x
    assume "rep (Suc c) f rest g k = Some x"
    then have "f rest g (\<lambda>rest' g'. rep c f rest' g' k) = Some x" by simp
    from soundD [OF assms this] obtain u r1 where
      1: "rest = u @ r1" "L u" "rep c f r1 g k = Some x" by blast
    from soundD [OF Suc.IH 1(3)] obtain v r2 where
      2: "r1 = v @ r2" "\<exists>ss. length ss = c \<and> v = concat ss \<and> (\<forall>s \<in> set ss. L s)"
         "k r2 g = Some x"
      by blast
    from 2(2) obtain ss where ss: "length ss = c" "v = concat ss" "\<forall>s \<in> set ss. L s" by blast
    show "\<exists>p rest'. rest = p @ rest' \<and>
      (\<exists>ss. length ss = Suc c \<and> p = concat ss \<and> (\<forall>s \<in> set ss. L s)) \<and> k rest' g = Some x"
    proof (intro exI conjI)
      show "rest = (u @ v) @ r2" using 1(1) 2(1) by simp
      show "length (u # ss) = Suc c" using ss(1) by simp
      show "u @ v = concat (u # ss)" using ss(2) by simp
      show "\<forall>s \<in> set (u # ss). L s" using 1(2) ss(3) by simp
      show "k r2 g = Some x" by (rule 2(3))
    qed
  qed
qed

lemma count_concat_ones:
  "\<forall>s \<in> set ss. length (filter P s) = 1 \<Longrightarrow> length (filter P (concat ss)) = length ss"
  by (induction ss) simp_all

lemma sound_unit:
  "sound (sre_match n (Seq (StarG NotSpace) (Seq (Atom Space) (StarG NotSpace))))
     (\<lambda>p. length (filter is_space p) = 1)"
proof (rule sound_weaken)
  show "sound (sre_match n (Seq (StarG NotSpace) (Seq (Atom Space) (StarG NotSpace))))
     (\<lambda>p. \<exists>u v. p = u @ v \<and> (\<forall>c \<in> set u. in_cset NotSpace c) \<and>
        (\<exists>u' v'. v = u' @ v' \<and> (\<exists>c. u' = [c] \<and> in_cset Space c) \<and>
           (\<forall>c \<in> set v'. in_cset NotSpace c)))"
    by (intro sound_Seq sound_StarG sound_Atom)
next
  fix s
  assume "\<exists>u v. s = u @ v \<and> (\<forall>c \<in> set u. in_cset NotSpace c) \<and>
        (\<exists>u' v'. v = u' @ v' \<and> (\<exists>c. u' = [c] \<and> in_cset Space c) \<and>
           (\<forall>c \<in> set v'. in_cset NotSpace c))"
  then obtain u c v' where s: "s = u @ [c] @ v'" and u: "\<forall>c \<in> set u. \<not> is_space c"
    and c: "is_space c" and v: "\<forall>c \<in> set v'. \<not> is_space c" by auto
  from u have "filter is_space u = []" by (simp add: filter_empty_conv)
  moreover from v have "filter is_space v' = []" by (simp add: filter_empty_conv)
  ultimately show "length (filter is_space s) = 1" using s c by simp
qed

lemma sound_spaces:
  "sound (sre_match n (spaces_regex c)) (\<lambda>p. length (filter is_space p) = c)"
proof (rule sound_weaken)
  have r: "sound (sre_match n (Rep c (Seq (StarG NotSpace) (Seq (Atom Space) (StarG NotSpace)))))
     (\<lambda>p. \<exists>ss. length ss = c \<and> p = concat ss \<and> (\<forall>s \<in> set ss. length (filter is_space s) = 1))"
    using sound_rep [OF sound_unit, of c n] by simp
  show "sound (sre_match n (spaces_regex c))
     (\<lambda>p. \<exists>u v. p = u @ v \<and>
        (\<exists>ss. length ss = c \<and> u = concat ss \<and> (\<forall>s \<in> set ss. length (filter is_space s) = 1)) \<and>
        (\<forall>c \<in> set v. in_cset NotSpace c))"
    unfolding spaces_regex_def by (intro sound_Seq r sound_StarG)
next
  fix s
  assume "\<exists>u v. s = u @ v \<and>
        (\<exists>ss. length ss = c \<and> u = concat ss \<and> (\<forall>s \<in> set ss. length (filter is_space s) = 1)) \<and>
        (\<forall>c \<in> set v. in_cset NotSpace c)"
  then obtain ss v where s: "s = concat ss @ v" and l: "length ss = c"
    and ss: "\<forall>s \<in> set ss. length (filter is_space s) = 1" and v: "\<forall>c \<in> set v. \<not> is_space c"
    by auto
  from v have "filter is_space v = []" by (simp add: filter_empty_conv)
  with s l count_concat_ones [OF ss] show "length (filter is_space s) = c" by simp
qed

lemma sound_body: "sound (sre_match n (body_regex m)) (matches_modifier m)"
proof (cases m)
  case NoModifier
  show ?thesis
    unfolding NoModifier body_regex.simps
    by (rule sound_weaken [OF sound_StarL]) auto
next
  case Greedy
  show ?thesis
    unfolding Greedy body_regex.simps
    by (rule sound_weaken [OF sound_StarG]) auto
next
  case (SpacesLimited ds)
  show ?thesis
    unfolding SpacesLimited body_regex.simps
    by (rule sound_weaken [OF sound_spaces]) simp
qed

lemma piece_sound:
  assumes "sre_match n (piece_regex p) rest g k = Some x"
  shows "\<exists>t rest'. rest = t @ rest' \<and> piece_matches p t \<and>
           k rest' (piece_captures n p t rest' @ g) = Some x"
proof (cases p)
  case (Lit c)
  with assms obtain r where r: "rest = c # r" "k r g = Some x"
    by (cases rest) (auto split: if_splits)
  show ?thesis
  proof (intro exI conjI)
    show "rest = [c] @ r" using r(1) by simp
    show "piece_matches p [c]" using Lit by simp
    show "k r (piece_captures n p [c] r @ g) = Some x" using Lit r(2) by simp
  qed
next
  case (Tok i m)
  with assms have "sre_match n (body_regex m) rest g
      (\<lambda>rest' g'. k rest' ((TOKEN_GROUP_PREFIX @ i, n - length rest, n - length rest') # g')) =
      Some x" by simp
  from soundD [OF sound_body this] obtain t rest' where
    t: "rest = t @ rest'" "matches_modifier m t"
       "k rest' ((TOKEN_GROUP_PREFIX @ i, n - length rest, n - length rest') # g) = Some x"
    by blast
  show ?thesis
  proof (intro exI conjI)
    show "rest = t @ rest'" by (rule t(1))
    show "piece_matches p t" using Tok t(2) by simp
    show "k rest' (piece_captures n p t rest' @ g) = Some x" using Tok t(1) t(3) by simp
  qed
qed

lemma captures_Cons:
  "captures n (p # ps) (t # ts) r = captures n ps ts r @ piece_captures n p t (concat ts @ r)"
  by (cases p) simp_all

lemma pieces_sound:
  "match_items n (map piece_regex ps) rest g k = Some x \<Longrightarrow>
   \<exists>texts rest'. list_all2 piece_matches ps texts \<and> rest = concat texts @ rest' \<and>
      k rest' (captures n ps texts rest' @ g) = Some x"
proof (induction ps arbitrary: rest g)
  case Nil
  then have k: "k rest g = Some x" by simp
  show ?case
  proof (intro exI conjI)
    show "list_all2 piece_matches [] []" by simp
    show "rest = concat [] @ rest" by simp
    show "k rest (captures n [] [] rest @ g) = Some x" using k by simp
  qed
next
  case (Cons p ps)
  then have "sre_match n (piece_regex p) rest g
      (\<lambda>rest' g'. match_items n (map piece_regex ps) rest' g' k) = Some x" by simp
  from piece_sound [OF this] obtain t r1 where
    t: "rest = t @ r1" "piece_matches p t"
       "match_items n (map piece_regex ps) r1 (piece_captures n p t r1 @ g) k = Some x"
    by blast
  from Cons.IH [OF t(3)] obtain texts rest' where
    ih: "list_all2 piece_matches ps texts" "r1 = concat texts @ rest'"
        "k rest' (captures n ps texts rest' @ piece_captures n p t r1 @ g) = Some x"
    by blast
  show ?case
  proof (intro exI conjI)
    show "list_all2 piece_matches (p # ps) (t # texts)" using t(2) ih(1) by simp
    show "rest = concat (t # texts) @ rest'" using t(1) ih(2) by simp
    show "k rest' (captures n (p # ps) (t # texts) rest' @ g) = Some x"
      using ih(3) ih(2) by (simp add: captures_Cons)
  qed
qed

lemma compiled_match_sound:
  assumes items: "p_items p = compiled_items ps" and m: "pattern_match p ln = Some m"
  shows "\<exists>texts rest'. list_all2 piece_matches ps texts \<and> ln = concat texts @ rest' \<and>
           (rest' = [] \<or> rest' = [nl]) \<and>
           m = \<lparr>m_string = ln, m_re = p, m_end = length ln - length rest',
                m_groups = captures (length ln) ps texts rest'\<rparr>"
proof -
  let ?k = "\<lambda>rest g. Some \<lparr>m_string = ln, m_re = p,
                              m_end = length ln - length rest, m_groups = g\<rparr>"
  from m have "match_items (length ln) (map piece_regex ps) ln []
      (\<lambda>rest' g'. match_items (length ln) [Eol] rest' g' ?k) = Some m"
    unfolding pattern_match_def items compiled_items_def
    by (simp add: match_items_append)
  from pieces_sound [OF this] obtain texts rest' where
    t: "list_all2 piece_matches ps texts" "ln = concat texts @ rest'"
       "match_items (length ln) [Eol] rest' (captures (length ln) ps texts rest' @ []) ?k = Some m"
    by blast
  from t(3) have r: "rest' = [] \<or> rest' = [nl]" and
    mm: "m = \<lparr>m_string = ln, m_re = p, m_end = length ln - length rest',
              m_groups = captures (length ln) ps texts rest'\<rparr>"
    by (auto split: if_splits)
  show ?thesis
  proof (intro exI conjI)
    show "list_all2 piece_matches ps texts" by (rule t(1))
    show "ln = concat texts @ rest'" by (rule t(2))
    show "rest' = [] \<or> rest' = [nl]" by (rule r)
    show "m = \<lparr>m_string = ln, m_re = p, m_end = length ln - length rest',
               m_groups = captures (length ln) ps texts rest'\<rparr>" by (rule mm)
  qed
qed

lemma captures_names:
  "fst ` set (captures n ps texts r) \<subseteq> (@) TOKEN_GROUP_PREFIX ` set (declared_indices ps)"
proof (induction n ps texts r rule: captures.induct)
  case (1 n c ps t ts r)
  then show ?case by (simp add: declared_indices_Cons)
next
  case (2 n i m ps t ts r)
  then show ?case by (auto simp: declared_indices_Cons)
qed simp_all

lemma map_of_captures_absent:
  "i \<notin> set (declared_indices ps) \<Longrightarrow> map_of (captures n ps texts r) (TOKEN_GROUP_PREFIX @ i) = None"
proof -
  assume "i \<notin> set (declared_indices ps)"
  then have "TOKEN_GROUP_PREFIX @ i \<notin> (@) TOKEN_GROUP_PREFIX ` set (declared_indices ps)"
    by auto
  with captures_names [of n ps texts r]
  have "TOKEN_GROUP_PREFIX @ i \<notin> fst ` set (captures n ps texts r)" by blast
  then show ?thesis by (simp add: map_of_eq_None_iff)
qed

lemma map_of_captures:
  assumes "length texts = length ps" and "distinct (declared_indices ps)"
    and "k < length ps" and "ps ! k = Tok i md"
  shows "map_of (captures n ps texts r) (TOKEN_GROUP_PREFIX @ i) =
           Some (n - length (concat (drop k texts) @ r),
                 n - length (concat (drop (Suc k) texts) @ r))"
  using assms
proof (induction ps arbitrary: texts k)
  case Nil
  then show ?case by simp
next
  case (Cons p ps)
  from Cons.prems(1) obtain t ts where texts: "texts = t # ts" and l: "length ts = length ps"
    by (cases texts) auto
  show ?case
  proof (cases k)
    case 0
    with Cons.prems(4) have p: "p = Tok i md" by simp
    with Cons.prems(2) have "i \<notin> set (declared_indices ps)"
      by (simp add: declared_indices_Cons)
    from map_of_captures_absent [OF this]
    have "map_of (captures n ps ts r) (TOKEN_GROUP_PREFIX @ i) = None" .
    then show ?thesis
      unfolding texts 0 p by (simp add: map_add_def)
  next
    case (Suc k')
    with Cons.prems have k': "k' < length ps" "ps ! k' = Tok i md" by simp_all
    from Cons.prems(2) have d: "distinct (declared_indices ps)"
      by (cases p) (simp_all add: declared_indices_Cons)
    from Cons.IH [OF l d k']
    have "map_of (captures n ps ts r) (TOKEN_GROUP_PREFIX @ i) =
           Some (n - length (concat (drop k' ts) @ r),
                 n - length (concat (drop (Suc k') ts) @ r))" .
    then show ?thesis
      unfolding texts Suc captures_Cons by (simp add: map_add_def)
  qed
qed

lemma span_text:
  assumes "k < length texts"
  shows "take ((length (concat texts @ r) - length (concat (drop (Suc k) texts) @ r)) -
               (length (concat texts @ r) - length (concat (drop k texts) @ r)))
           (drop (length (concat texts @ r) - length (concat (drop k texts) @ r))
              (concat texts @ r)) = texts ! k"
proof -
  have sp: "texts = take k texts @ texts ! k # drop (Suc k) texts"
    using assms by (rule id_take_nth_drop)
  define a where "a = concat (take k texts)"
  define b where "b = concat (drop (Suc k) texts)"
  have c: "concat texts = a @ texts ! k @ b"
    unfolding a_def b_def by (subst sp) simp
  have dk: "concat (drop k texts) = texts ! k @ b"
    unfolding b_def using assms by (simp add: Cons_nth_drop_Suc [symmetric])
  show ?thesis
    unfolding c dk b_def [symmetric] by simp
qed

lemma match_decomposition:
  assumes c: "map_pattern_to_re (escape t) = Inr p" and m: "pattern_match p ln = Some m"
  shows "\<exists>texts. list_all2 piece_matches (template_pieces t) texts \<and>
           (ln = concat texts \<or> ln = concat texts @ [nl]) \<and>
           (\<forall>k i md. k < length texts \<longrightarrow> template_pieces t ! k = Tok i md \<longrightarrow>
              re_group m (TOKEN_GROUP_PREFIX @ i) = Inr (Some (texts ! k)))"
proof -
  let ?ps = "template_pieces t"
  note items = map_pattern_to_re_items(1) [OF c]
  from map_pattern_to_re_items(3) [OF c] have d: "distinct (declared_indices ?ps)"
    by (simp add: first_duplicate_None)
  from compiled_match_sound [OF items m] obtain texts rest' where
    t: "list_all2 piece_matches ?ps texts" "ln = concat texts @ rest'"
       "rest' = [] \<or> rest' = [nl]"
       "m = \<lparr>m_string = ln, m_re = p, m_end = length ln - length rest',
             m_groups = captures (length ln) ?ps texts rest'\<rparr>"
    by blast
  from t(1) have len: "length texts = length ?ps" by (simp add: list_all2_lengthD)
  have names: "concat (map group_names (p_items p)) =
      map ((@) TOKEN_GROUP_PREFIX) (declared_indices ?ps)"
    unfolding items by (rule group_names_compiled)
  have g: "re_group m (TOKEN_GROUP_PREFIX @ i) = Inr (Some (texts ! k))"
    if k: "k < length texts" and tok: "?ps ! k = Tok i md" for k i md
  proof -
    from k len have kp: "k < length ?ps" by simp
    have "piece_indices (?ps ! k) = [i]" using tok by simp
    then have "i \<in> set (declared_indices ?ps)"
      unfolding declared_indices_def using kp by (auto intro!: bexI [of _ "?ps ! k"])
    then have known: "TOKEN_GROUP_PREFIX @ i \<in> set (concat (map group_names (p_items (m_re m))))"
      unfolding t(4) using names by simp
    from map_of_captures [OF len d kp tok, of "length ln" rest']
    have "map_of (m_groups m) (TOKEN_GROUP_PREFIX @ i) =
           Some (length ln - length (concat (drop k texts) @ rest'),
                 length ln - length (concat (drop (Suc k) texts) @ rest'))"
      unfolding t(4) by simp
    with known have "re_group m (TOKEN_GROUP_PREFIX @ i) =
      Inr (Some (take ((length ln - length (concat (drop (Suc k) texts) @ rest')) -
                       (length ln - length (concat (drop k texts) @ rest')))
                  (drop (length ln - length (concat (drop k texts) @ rest')) (m_string m))))"
      unfolding re_group_def by simp
    also have "m_string m = concat texts @ rest'" unfolding t(4) using t(2) by simp
    finally show ?thesis
      unfolding t(2) using span_text [OF k, of rest'] by simp
  qed
  show ?thesis
  proof (intro exI conjI allI impI)
    show "list_all2 piece_matches ?ps texts" by (rule t(1))
    show "ln = concat texts \<or> ln = concat texts @ [nl]" using t(2) t(3) by auto
    show "re_group m (TOKEN_GROUP_PREFIX @ i) = Inr (Some (texts ! k))"
      if "k < length texts" "?ps ! k = Tok i md" for k i md
      using that by (rule g)
  qed
qed

lemma re_group_unknown:
  assumes c: "map_pattern_to_re (escape t) = Inr p" and m: "pattern_match p ln = Some m"
    and n: "name \<notin> (@) TOKEN_GROUP_PREFIX ` set (declared_indices (template_pieces t))"
  shows "re_group m name = Inl (IndexError ''no such group'')"
proof -
  have "concat (map group_names (p_items p)) =
      map ((@) TOKEN_GROUP_PREFIX) (declared_indices (template_pieces t))"
    unfolding map_pattern_to_re_items(1) [OF c] by (rule group_names_compiled)
  with n pattern_match_fields(2) [OF m] show ?thesis
    unfolding re_group_def by simp
qed

lemma match_line_origin:
  assumes "Grepper_init ps = Inr g" and "match_line g ln = Some m"
  shows "\<exists>p. map_pattern_to_re (escape (pattern m)) = Inr p \<and>
             pattern_match p ln = Some (wrapped m) \<and> pattern m \<in> set ps"
proof -
  from assms(2) have "match_loop (patterns g) 0 (regexes g) ln = Some m"
    by (simp add: match_line_def)
  from match_loop_Some [OF this] obtain j where j: "j < length (regexes g)"
    "pattern_match (regexes g ! j) ln = Some (wrapped m)" "pattern m = patterns g ! (0 + j)"
    by blast
  from j(1) j(3) Grepper_init_fields [OF assms(1)]
  have "map_pattern_to_re (escape (pattern m)) = Inr (regexes g ! j)" "pattern m \<in> set ps"
    by simp_all
  with j(2) show ?thesis by blast
qed

section \<open>How construction fails\<close>


lemma compile_all_first_failure:
  assumes "\<forall>t' \<in> set pre. \<exists>r. map_pattern_to_re (escape t') = Inr r"
    and "map_pattern_to_re (escape t) = Inl e"
  shows "compile_all (pre @ t # post) = Inl e"
  using assms(1)
proof (induction pre)
  case Nil
  show ?case using assms(2) by simp
next
  case (Cons a pre)
  then obtain r where "map_pattern_to_re (escape a) = Inr r" by auto
  with Cons show ?case by simp
qed




lemma first_duplicate_Some:
  "first_duplicate seen ps = Some (i, m) \<Longrightarrow>
   \<exists>ps1 ps2. ps = ps1 @ Tok i m # ps2 \<and> first_duplicate seen ps1 = None \<and>
      i \<in> seen \<union> set (declared_indices ps1)"
proof (induction seen ps rule: first_duplicate.induct)
  case (1 seen)
  then show ?case by simp
next
  case (2 seen c ps)
  then obtain ps1 ps2 where "ps = ps1 @ Tok i m # ps2" "first_duplicate seen ps1 = None"
    "i \<in> seen \<union> set (declared_indices ps1)" by auto
  then have "Lit c # ps = (Lit c # ps1) @ Tok i m # ps2 \<and>
      first_duplicate seen (Lit c # ps1) = None \<and>
      i \<in> seen \<union> set (declared_indices (Lit c # ps1))"
    by (simp add: declared_indices_Cons)
  then show ?case by blast
next
  case (3 seen i' m' ps)
  show ?case
  proof (cases "i' \<in> seen")
    case True
    with 3(2) have "i = i'" "m = m'" by simp_all
    with True have "Tok i' m' # ps = [] @ Tok i m # ps \<and> first_duplicate seen [] = None \<and>
      i \<in> seen \<union> set (declared_indices [])" by simp
    then show ?thesis by blast
  next
    case False
    with 3(2) have "first_duplicate (insert i' seen) ps = Some (i, m)" by simp
    from 3(1) [OF False this] obtain ps1 ps2 where p: "ps = ps1 @ Tok i m # ps2"
      "first_duplicate (insert i' seen) ps1 = None"
      "i \<in> insert i' seen \<union> set (declared_indices ps1)" by blast
    with False have "Tok i' m' # ps = (Tok i' m' # ps1) @ Tok i m # ps2 \<and>
      first_duplicate seen (Tok i' m' # ps1) = None \<and>
      i \<in> seen \<union> set (declared_indices (Tok i' m' # ps1))"
      by (auto simp: declared_indices_Cons)
    then show ?thesis by blast
  qed
qed

section \<open>Claims\<close>

lemma duplicate_example_pieces:
  "\<not> distinct (declared_indices (template_pieces ''foo %{0G} is a %{0S1}''))"
  by code_simp

text \<open>
  C1, as amended. When a template repeats a token index (the digits of the index, whatever
  the modifiers) and every template before it compiles, construction fails with the
  ValueError \<open>Duplicate token index P in R\<close>, where \<open>P\<close> is the first placeholder of the
  template whose index an earlier placeholder has, in its raw form, and \<open>R\<close> is \<open>repr\<close> of
  the unescaped template; the unescaped template is the template itself when it has no
  newline. The result is the error alone: no pattern set is returned.
\<close>

theorem duplicate_index_fails_construction:
  assumes earlier: "\<forall>t' \<in> set pre. \<exists>r. map_pattern_to_re (escape t') = Inr r"
    and dup: "\<not> distinct (declared_indices (template_pieces t))"
  shows "\<exists>i m ps1 ps2.
           template_pieces t = ps1 @ Tok i m # ps2 \<and>
           distinct (declared_indices ps1) \<and> i \<in> set (declared_indices ps1) \<and>
           Grepper_init (pre @ t # post) =
             Inl (ValueError (''Duplicate token index '' @ placeholder_text i m @ '' in '' @
                              py_repr (unescape (escape t)))) \<and>
           (nl \<notin> set t \<longrightarrow> unescape (escape t) = t)"
proof -
  from dup have "first_duplicate {} (template_pieces t) \<noteq> None"
    by (simp add: first_duplicate_None)
  then obtain i m where fd: "first_duplicate {} (template_pieces t) = Some (i, m)"
    by auto
  from first_duplicate_Some [OF fd] obtain ps1 ps2 where
    sp: "template_pieces t = ps1 @ Tok i m # ps2" and
    n1: "first_duplicate {} ps1 = None" and i: "i \<in> {} \<union> set (declared_indices ps1)"
    by blast
  from n1 have d1: "distinct (declared_indices ps1)" by (simp add: first_duplicate_None)
  have "map_pattern_to_re (escape t) = Inl (duplicate_error i m (escape t))"
    unfolding map_pattern_to_re_escape fd by simp
  from compile_all_first_failure [OF earlier this]
  have "compile_all (pre @ t # post) = Inl (duplicate_error i m (escape t))" .
  then have "Grepper_init (pre @ t # post) =
      Inl (ValueError (''Duplicate token index '' @ placeholder_text i m @ '' in '' @
                       py_repr (unescape (escape t))))"
    by (simp add: Grepper_init_def duplicate_error_def)
  with sp d1 i unescape_escape_id [of t] show ?thesis by auto
qed

theorem duplicate_index_fails_construction_witness:
  "\<not> distinct (declared_indices (template_pieces ''foo %{0G} is a %{0S1}'')) \<and>
   (\<exists>i m. Grepper_init [''foo %{0G} is a %{0S1}''] =
      Inl (ValueError (''Duplicate token index '' @ placeholder_text i m @ '' in '' @
                       py_repr ''foo %{0G} is a %{0S1}'')))"
proof -
  have e: "\<forall>t' \<in> set []. \<exists>r. map_pattern_to_re (escape t') = Inr r" by simp
  have n: "nl \<notin> set ''foo %{0G} is a %{0S1}''" by simp
  from duplicate_index_fails_construction [OF e duplicate_example_pieces, of "[]"]
  obtain i m where
    "Grepper_init ([] @ [''foo %{0G} is a %{0S1}'']) =
       Inl (ValueError (''Duplicate token index '' @ placeholder_text i m @ '' in '' @
                        py_repr (unescape (escape ''foo %{0G} is a %{0S1}''))))"
    and "nl \<notin> set ''foo %{0G} is a %{0S1}'' \<longrightarrow>
         unescape (escape ''foo %{0G} is a %{0S1}'') = ''foo %{0G} is a %{0S1}''"
    by blast
  with n have "Grepper_init [''foo %{0G} is a %{0S1}''] =
       Inl (ValueError (''Duplicate token index '' @ placeholder_text i m @ '' in '' @
                        py_repr ''foo %{0G} is a %{0S1}''))"
    by simp
  with duplicate_example_pieces show ?thesis by blast
qed

text \<open>
  The claim as first stated fails when an earlier template does not compile: the second
  template repeats the index 0, and construction fails with the error of the first.
\<close>

theorem earlier_template_error_counterexample:
  "\<not> distinct (declared_indices (template_pieces ''%{0}%{0}'')) \<and>
   Grepper_init [''%{0S4294967295}'', ''%{0}%{0}''] =
     Inl (OverflowError ''the repetition number is too large'')"
  by code_simp

lemma simple_pattern_examples:
  "case Grepper_init [''foo %{0} is a %{1}''] of
     Inl e \<Rightarrow> False
   | Inr g \<Rightarrow>
       map_option line (match_line g ''foo blah is a bar'') = Some ''foo blah is a bar'' \<and>
       map_option line (match_line g ''foo blah is a very big boat'') =
         Some ''foo blah is a very big boat'' \<and>
       match_line g ''foo blah is bar'' = None \<and>
       match_line g ''foo blah'' = None \<and>
       match_line g ''foo blah is'' = None"
  by code_simp

text \<open>
  C2, as amended. A match of a compiled pattern starts at the start of the line and ends at
  the end of the line, or just before a newline that ends the line: never at any other
  place, so never on a proper substring of a line that does not end in a newline. The
  pattern compiled from \<open>foo %{0} is a %{1}\<close> matches \<open>foo blah is a bar\<close> and
  \<open>foo blah is a very big boat\<close>, and matches none of \<open>foo blah is bar\<close>, \<open>foo blah\<close> and
  \<open>foo blah is\<close>.
\<close>

theorem compiled_pattern_anchored:
  assumes "map_pattern_to_re (escape t) = Inr p" and "pattern_match p ln = Some m"
  shows "(m_end m = length ln \<or> (\<exists>pre. ln = pre @ [nl] \<and> m_end m = length pre)) \<and>
         (case Grepper_init [''foo %{0} is a %{1}''] of
            Inl e \<Rightarrow> False
          | Inr g \<Rightarrow>
              map_option line (match_line g ''foo blah is a bar'') = Some ''foo blah is a bar'' \<and>
              map_option line (match_line g ''foo blah is a very big boat'') =
                Some ''foo blah is a very big boat'' \<and>
              match_line g ''foo blah is bar'' = None \<and>
              match_line g ''foo blah'' = None \<and>
              match_line g ''foo blah is'' = None)"
  using compiled_match_anchored [OF assms] simple_pattern_examples by blast

lemma compile_and_match_foo_bar:
  "case map_pattern_to_re (escape ''foo %{0}'') of
     Inl e \<Rightarrow> False
   | Inr p \<Rightarrow> (case pattern_match p ''foo bar'' of None \<Rightarrow> False | Some m \<Rightarrow> True)"
  by code_simp

theorem compiled_pattern_anchored_witness:
  "\<exists>p m. map_pattern_to_re (escape ''foo %{0}'') = Inr p \<and>
     pattern_match p ''foo bar'' = Some m \<and> m_end m = 7"
proof -
  from compile_and_match_foo_bar obtain p m where
    p: "map_pattern_to_re (escape ''foo %{0}'') = Inr p"
    and m: "pattern_match p ''foo bar'' = Some m"
    by (auto split: sum.splits option.splits)
  from compiled_pattern_anchored [OF p m]
  have a: "m_end m = length ''foo bar'' \<or>
           (\<exists>pre. ''foo bar'' = pre @ [nl] \<and> m_end m = length pre)" by blast
  have "\<not> (\<exists>pre. ''foo bar'' = pre @ [nl])"
  proof
    assume "\<exists>pre. ''foo bar'' = pre @ [nl]"
    then obtain pre where "''foo bar'' = pre @ [nl]" by blast
    then have "last ''foo bar'' = last (pre @ [nl])" by simp
    then show False by simp
  qed
  with a have "m_end m = 7" by auto
  with p m show ?thesis by blast
qed

text \<open>
  The claim as first stated fails on a line that ends in a newline: the pattern compiled
  from \<open>foo\<close> matches the four characters \<open>foo\n\<close> and the match ends at 3.
\<close>

theorem trailing_newline_counterexample:
  "case map_pattern_to_re (escape ''foo'') of
     Inl e \<Rightarrow> False
   | Inr p \<Rightarrow>
       (case pattern_match p (''foo'' @ [nl]) of
          None \<Rightarrow> False
        | Some m \<Rightarrow> m_end m = 3 \<and> length (m_string m) = 4)"
  by code_simp

lemma build_foo_baz:
  "case Grepper_init [''foo'', ''baz''] of
     Inl e \<Rightarrow> False
   | Inr g \<Rightarrow>
       (case match_line g ''baz'' of None \<Rightarrow> False | Some m \<Rightarrow> True) \<and>
       pattern_match (regexes g ! 0) ''baz'' = None \<and>
       match_line g ''blah'' = None"
  by code_simp

text \<open>
  C5, as amended. \<open>match_line\<close> tries the compiled patterns in the order of the templates
  and answers with the first one whose match succeeds: the result carries the template at
  some position \<open>j\<close>, it is the match of the pattern compiled from that template, and no
  pattern before \<open>j\<close> matches the line. That match ends at the end of the line, or just
  before a newline that ends the line; so it consumes the entire line whenever the line does
  not end in a newline. When no pattern matches, the answer is \<open>None\<close>; the function is
  total, so there is no other outcome.
\<close>

theorem match_line_first_anchored_match:
  assumes "Grepper_init ps = Inr g"
  shows "case match_line g ln of
           None \<Rightarrow> \<forall>j < length ps. pattern_match (regexes g ! j) ln = None
         | Some m \<Rightarrow>
             \<exists>j < length ps.
                pattern m = ps ! j \<and>
                map_pattern_to_re (escape (ps ! j)) = Inr (regexes g ! j) \<and>
                pattern_match (regexes g ! j) ln = Some (wrapped m) \<and>
                (\<forall>j' < j. pattern_match (regexes g ! j') ln = None) \<and>
                (m_end (wrapped m) = length ln \<or>
                 (\<exists>pre. ln = pre @ [nl] \<and> m_end (wrapped m) = length pre))"
proof (cases "match_line g ln")
  case None
  then have "\<forall>j < length (regexes g). pattern_match (regexes g ! j) ln = None"
    by (simp add: match_line_def match_loop_None)
  with None Grepper_init_fields(2) [OF assms] show ?thesis by simp
next
  case (Some m)
  then have "match_loop (patterns g) 0 (regexes g) ln = Some m"
    by (simp add: match_line_def)
  from match_loop_Some [OF this] obtain j where j: "j < length (regexes g)"
    "pattern_match (regexes g ! j) ln = Some (wrapped m)" "pattern m = patterns g ! (0 + j)"
    "\<forall>j' < j. pattern_match (regexes g ! j') ln = None" by blast
  from j(1) Grepper_init_fields [OF assms]
  have jl: "j < length ps" and c: "map_pattern_to_re (escape (ps ! j)) = Inr (regexes g ! j)"
    by simp_all
  note a = compiled_match_anchored [OF c j(2)]
  from j jl c a Grepper_init_fields(1) [OF assms]
  have "j < length ps \<and> pattern m = ps ! j \<and>
        map_pattern_to_re (escape (ps ! j)) = Inr (regexes g ! j) \<and>
        pattern_match (regexes g ! j) ln = Some (wrapped m) \<and>
        (\<forall>j' < j. pattern_match (regexes g ! j') ln = None) \<and>
        (m_end (wrapped m) = length ln \<or>
         (\<exists>pre. ln = pre @ [nl] \<and> m_end (wrapped m) = length pre))" by simp
  then show ?thesis using Some by auto
qed

theorem match_line_first_anchored_match_witness:
  "\<exists>g. Grepper_init [''foo'', ''baz''] = Inr g \<and>
     (\<exists>m. match_line g ''baz'' = Some m \<and> pattern m = ''baz'' \<and> m_end (wrapped m) = 3) \<and>
     match_line g ''blah'' = None"
proof -
  from build_foo_baz obtain g where g: "Grepper_init [''foo'', ''baz''] = Inr g"
    and rest: "(case match_line g ''baz'' of None \<Rightarrow> False | Some m \<Rightarrow> True)"
      "pattern_match (regexes g ! 0) ''baz'' = None" "match_line g ''blah'' = None"
    by (auto split: sum.splits)
  from rest(1) obtain m where m: "match_line g ''baz'' = Some m"
    by (auto split: option.splits)
  from match_line_first_anchored_match [OF g, of "''baz''"] m
  have "\<exists>j < length [''foo'', ''baz''].
          pattern m = [''foo'', ''baz''] ! j \<and>
          pattern_match (regexes g ! j) ''baz'' = Some (wrapped m) \<and>
          (m_end (wrapped m) = length ''baz'' \<or>
           (\<exists>pre. ''baz'' = pre @ [nl] \<and> m_end (wrapped m) = length pre))"
    by auto
  then obtain j where j: "j < length [''foo'', ''baz'']" "pattern m = [''foo'', ''baz''] ! j"
    "pattern_match (regexes g ! j) ''baz'' = Some (wrapped m)"
    "m_end (wrapped m) = length ''baz'' \<or>
       (\<exists>pre. ''baz'' = pre @ [nl] \<and> m_end (wrapped m) = length pre)" by blast
  have "j \<noteq> 0"
  proof
    assume "j = 0"
    with j(3) rest(2) show False by simp
  qed
  with j(1) have "j = 1" by simp
  with j(2) have p: "pattern m = ''baz''" by simp
  have "\<not> (\<exists>pre. ''baz'' = pre @ [nl])"
  proof
    assume "\<exists>pre. ''baz'' = pre @ [nl]"
    then obtain pre where "''baz'' = pre @ [nl]" by blast
    then have "last ''baz'' = last (pre @ [nl])" by simp
    then show False by simp
  qed
  with j(4) have "m_end (wrapped m) = 3" by auto
  with g m p rest(3) show ?thesis by blast
qed

text \<open>
  The claim as first stated fails on a line that ends in a newline: with the templates
  \<open>foo\<close> and \<open>foo\n\<close> and the line \<open>foo\n\<close>, the answer comes from \<open>foo\<close>, whose match
  ends at 3 of 4 characters, although the second pattern consumes the whole line.
\<close>

theorem match_line_prefix_match_counterexample:
  "case Grepper_init [''foo'', ''foo'' @ [nl]] of
     Inl e \<Rightarrow> False
   | Inr g \<Rightarrow>
       (case match_line g (''foo'' @ [nl]) of
          None \<Rightarrow> False
        | Some m \<Rightarrow> pattern m = ''foo'' \<and> m_end (wrapped m) = 3 \<and> length (line m) = 4) \<and>
       map_option m_end (pattern_match (regexes g ! 1) (''foo'' @ [nl])) = Some 4"
  by code_simp






text \<open>
  C9. Whenever \<open>match_line\<close> succeeds, the \<open>line\<close> of the result is the line that was
  passed in.
\<close>

theorem line_is_input_line:
  "match_line g ln = Some m \<Longrightarrow> line m = ln"
proof -
  assume "match_line g ln = Some m"
  then have "match_loop (patterns g) 0 (regexes g) ln = Some m"
    by (simp add: match_line_def)
  from match_loop_Some [OF this] obtain j where
    "pattern_match (regexes g ! j) ln = Some (wrapped m)" by blast
  from pattern_match_fields(1) [OF this] show "line m = ln"
    by (simp add: line_def)
qed

lemma build_simple_boat:
  "case Grepper_init [''foo %{0} is a %{1}''] of
     Inl e \<Rightarrow> False
   | Inr g \<Rightarrow>
       (case match_line g ''foo blah is a very big boat'' of None \<Rightarrow> False | Some m \<Rightarrow> True)"
  by code_simp

theorem line_is_input_line_witness:
  "\<exists>g m. Grepper_init [''foo %{0} is a %{1}''] = Inr g \<and>
     match_line g ''foo blah is a very big boat'' = Some m \<and>
     line m = ''foo blah is a very big boat''"
proof -
  from build_simple_boat obtain g m where
    g: "Grepper_init [''foo %{0} is a %{1}''] = Inr g"
    and m: "match_line g ''foo blah is a very big boat'' = Some m"
    by (auto split: sum.splits option.splits)
  from line_is_input_line [OF m] g m show ?thesis by blast
qed

end
